theory Spec2Isabelle
  imports Main "HOL-Library.Log_Nat" "HOL-Library.Word"
begin

section \<open>JavaScript numbers\<close>

text \<open>
  Every number of \<^verbatim>\<open>index.mjs\<close> is an IEEE 754 binary64 value. A finite double is
  a rational, so the numbers are modelled as \<^typ>\<open>rat\<close> and every arithmetic
  operation of the source rounds its exact result to the nearest double, ties to even
  (\<open>fl\<close>). The exponent range is not bounded: overflow to Infinity and the
  subnormal range (below \<open>2^-1022\<close>) are outside the model, and so is the sign of zero.
  NaN, where the source can produce it, is written \<open>None\<close>.
\<close>

definition ilog2 :: "rat \<Rightarrow> int" where
  \<comment> \<open>the binary exponent of a non-zero number: \<open>2^k \<le> |q| < 2^(k+1)\<close>\<close>
  "ilog2 q = (let (a, b) = quotient_of \<bar>q\<bar>; k = bitlen a - bitlen b
              in if 2 powi k \<le> \<bar>q\<bar> then k else k - 1)"

definition rne :: "rat \<Rightarrow> int" where
  \<comment> \<open>round to the nearest integer, ties to the even one\<close>
  "rne m = (let f = \<lfloor>m\<rfloor>; d = m - of_int f
            in if d < 1 / 2 then f else if 1 / 2 < d then f + 1
               else if even f then f else f + 1)"

definition fl :: "rat \<Rightarrow> rat" where
  \<comment> \<open>round to 53 significant bits\<close>
  "fl q = (if q = 0 then 0
           else let e = ilog2 q - 52 in of_int (rne (q / 2 powi e)) * 2 powi e)"

definition fadd :: "rat \<Rightarrow> rat \<Rightarrow> rat" where
  "fadd a b = fl (a + b)"

definition fsub :: "rat \<Rightarrow> rat \<Rightarrow> rat" where
  "fsub a b = fl (a - b)"

definition fmul :: "rat \<Rightarrow> rat \<Rightarrow> rat" where
  "fmul a b = fl (a * b)"

definition fdiv :: "rat \<Rightarrow> rat \<Rightarrow> rat" where
  \<comment> \<open>for a non-zero divisor; the one division of the source whose divisor can be
      zero (\<open>sumX / sumA\<close>) is guarded where it is used\<close>
  "fdiv a b = fl (a / b)"

definition Math_floor :: "rat \<Rightarrow> int" where
  "Math_floor v = \<lfloor>v\<rfloor>"

definition Math_round :: "rat \<Rightarrow> int" where
  \<comment> \<open>\<^verbatim>\<open>Math.round\<close>: the nearest integer, a tie going towards \<open>+\<infinity>\<close>\<close>
  "Math_round v = \<lfloor>v + 1 / 2\<rfloor>"

section \<open>Configuration\<close>

text \<open>
  \<^verbatim>\<open>parseInt(s, 10)\<close>: leading white space is skipped, then an optional sign, then
  the longest run of decimal digits; no digit gives NaN (\<open>None\<close>). A string is the
  sequence of bytes that the environment holds, the UTF-8 encoding of the JavaScript
  string. The white space of JavaScript is the six ASCII characters of \<open>is_space\<close>, the
  no-break space U+00A0 (two bytes) and U+1680, U+2000 to U+200A, U+2028, U+2029, U+202F,
  U+205F, U+3000 and U+FEFF (three bytes each).
\<close>

definition is_space :: "char \<Rightarrow> bool" where
  "is_space c = (c \<in> set [CHR '' '', CHR 0x09, CHR 0x0A, CHR 0x0B, CHR 0x0C, CHR 0x0D])"

definition wide_spaces :: "string list" where
  "wide_spaces =
     [[CHR 0xE1, CHR 0x9A, CHR 0x80],
      [CHR 0xE2, CHR 0x80, CHR 0x80], [CHR 0xE2, CHR 0x80, CHR 0x81],
      [CHR 0xE2, CHR 0x80, CHR 0x82], [CHR 0xE2, CHR 0x80, CHR 0x83],
      [CHR 0xE2, CHR 0x80, CHR 0x84], [CHR 0xE2, CHR 0x80, CHR 0x85],
      [CHR 0xE2, CHR 0x80, CHR 0x86], [CHR 0xE2, CHR 0x80, CHR 0x87],
      [CHR 0xE2, CHR 0x80, CHR 0x88], [CHR 0xE2, CHR 0x80, CHR 0x89],
      [CHR 0xE2, CHR 0x80, CHR 0x8A],
      [CHR 0xE2, CHR 0x80, CHR 0xA8], [CHR 0xE2, CHR 0x80, CHR 0xA9],
      [CHR 0xE2, CHR 0x80, CHR 0xAF], [CHR 0xE2, CHR 0x81, CHR 0x9F],
      [CHR 0xE3, CHR 0x80, CHR 0x80], [CHR 0xEF, CHR 0xBB, CHR 0xBF]]"

definition space_len :: "string \<Rightarrow> nat" where
  \<comment> \<open>the number of bytes of the white space character at the head of the string, 0 when
      the string does not start with one\<close>
  "space_len s =
     (if s \<noteq> [] \<and> is_space (hd s) then 1
      else if take 2 s = [CHR 0xC2, CHR 0xA0] then 2
      else if take 3 s \<in> set wide_spaces then 3
      else 0)"

fun skip_space :: "string \<Rightarrow> string" where
  "skip_space [] = []"
| "skip_space (c # cs) =
     (if space_len (c # cs) = 0 then c # cs
      else skip_space (drop (space_len (c # cs) - 1) cs))"

definition is_digit :: "char \<Rightarrow> bool" where
  "is_digit c = (48 \<le> (of_char c :: nat) \<and> (of_char c :: nat) \<le> 57)"

definition digit_val :: "char \<Rightarrow> int" where
  "digit_val c = of_char c - 48"

definition parseInt :: "string \<Rightarrow> int option" where
  "parseInt s =
     (let t = skip_space s;
          neg = (t \<noteq> [] \<and> hd t = CHR ''-'');
          u = (if t \<noteq> [] \<and> (hd t = CHR ''-'' \<or> hd t = CHR ''+'') then tl t else t);
          ds = takeWhile is_digit u
      in if ds = [] then None
         else Some ((if neg then - 1 else 1) * foldl (\<lambda>n c. 10 * n + digit_val c) 0 ds))"

type_synonym env = "string \<rightharpoonup> string"

definition env_or :: "env \<Rightarrow> string \<Rightarrow> string \<Rightarrow> string" where
  \<comment> \<open>\<^verbatim>\<open>process.env.K || d\<close>: an unset and an empty variable both give the default\<close>
  "env_or e k d = (case e k of None \<Rightarrow> d | Some v \<Rightarrow> if v = [] then d else v)"

text \<open>
  The constants of lines 9 to 20, after parsing. \<open>default_config\<close> is what an empty
  environment gives: \<^verbatim>\<open>parseFloat("0.05")\<close> is the double nearest to \<open>1/20\<close>,
  \<^verbatim>\<open>parseFloat("-0.00")\<close> is zero.
\<close>

record config =
  SIZE :: int
  PADDING_PCT :: rat
  V_BIAS_PCT :: rat
  ALPHA_THRESH :: int
  HQ :: bool
  SMOOTH_THRESH :: int
  SMOOTH_BLUR :: rat

definition default_config :: config where
  "default_config =
     \<lparr>SIZE = 2000, PADDING_PCT = fl (1 / 20), V_BIAS_PCT = 0, ALPHA_THRESH = 16,
      HQ = False, SMOOTH_THRESH = 180, SMOOTH_BLUR = fl (6 / 5)\<rparr>"

section \<open>Images and the sharp operations the program calls\<close>

text \<open>
  A buffer holding an RGBA image is identified with the image it decodes to: its width,
  its height and its pixels in row-major order. The operations of the \<^verbatim>\<open>sharp\<close>
  library are not code of this repository; the ones below follow the library's
  documented behaviour.
\<close>

type_synonym byte = "8 word"
type_synonym pixel = "byte \<times> byte \<times> byte \<times> byte"

record image =
  width :: nat
  height :: nat
  pixels :: "pixel list"

datatype error =
    RemovalFailed
  | PipelineFailed
  | BadRawInput
  | BadChannels
  | BadExtractArea
  | BadCreate
  | BadOffset
  | OffsetOutOfRange
  | OverlayTooLarge
  | BadWebpOption
  | TooLargeForWebp

definition alpha_of :: "pixel \<Rightarrow> byte" where
  "alpha_of p = (case p of (r, g, b, al) \<Rightarrow> al)"

definition extractChannel_alpha_raw :: "image \<Rightarrow> byte list" where
  \<comment> \<open>\<^verbatim>\<open>sharp(buf).extractChannel("alpha").raw().toBuffer()\<close>: one byte per pixel\<close>
  "extractChannel_alpha_raw img = map alpha_of (pixels img)"

definition extract_area :: "image \<Rightarrow> int \<Rightarrow> int \<Rightarrow> int \<Rightarrow> int \<Rightarrow> error + image" where
  \<comment> \<open>\<^verbatim>\<open>sharp(buf).extract({left, top, width, height})\<close>: the region must lie inside\<close>
  "extract_area img l t ew eh =
     (if l < 0 \<or> t < 0 \<or> ew < 1 \<or> eh < 1
         \<or> int (width img) < l + ew \<or> int (height img) < t + eh
      then Inl BadExtractArea
      else Inr \<lparr>width = nat ew, height = nat eh,
                pixels = concat (map (\<lambda>y. take (nat ew) (drop (y * width img + nat l) (pixels img)))
                                     [nat t..<nat t + nat eh])\<rparr>)"

section \<open>findAlphaBBoxAndCentroid (lines 42 to 77)\<close>

record scan =
  x0 :: int
  y0 :: int
  x1 :: int
  y1 :: int
  sumA :: rat
  sumX :: rat
  sumY :: rat

definition buf_at :: "byte list \<Rightarrow> nat \<Rightarrow> byte option" where
  \<comment> \<open>\<^verbatim>\<open>a[i]\<close>; past the end JavaScript reads \<^verbatim>\<open>undefined\<close>\<close>
  "buf_at a i = (if i < length a then Some (a ! i) else None)"

definition scan_pixel :: "int \<Rightarrow> nat \<Rightarrow> byte list \<Rightarrow> nat \<Rightarrow> nat \<Rightarrow> scan \<Rightarrow> scan" where
  \<comment> \<open>the body of the inner loop; \<^verbatim>\<open>undefined > ALPHA_THRESH\<close> is false\<close>
  "scan_pixel thresh iw a y x s =
     (case buf_at a (y * iw + x) of
        None \<Rightarrow> s
      | Some alpha \<Rightarrow>
          if thresh < uint alpha then
            \<lparr>x0 = (if int x < x0 s then int x else x0 s),
             y0 = (if int y < y0 s then int y else y0 s),
             x1 = (if x1 s < int x then int x else x1 s),
             y1 = (if y1 s < int y then int y else y1 s),
             sumA = fadd (sumA s) (of_int (uint alpha)),
             sumX = fadd (sumX s) (fmul (of_int (uint alpha)) (of_nat x)),
             sumY = fadd (sumY s) (fmul (of_int (uint alpha)) (of_nat y))\<rparr>
          else s)"

definition scan_init :: "nat \<Rightarrow> nat \<Rightarrow> scan" where
  "scan_init iw ih = \<lparr>x0 = int iw, y0 = int ih, x1 = - 1, y1 = - 1, sumA = 0, sumX = 0, sumY = 0\<rparr>"

definition scan_all :: "int \<Rightarrow> nat \<Rightarrow> nat \<Rightarrow> byte list \<Rightarrow> scan" where
  \<comment> \<open>the two nested \<^verbatim>\<open>for\<close> loops\<close>
  "scan_all thresh iw ih a =
     fold (\<lambda>y. fold (\<lambda>x. scan_pixel thresh iw a y x) [0..<iw]) [0..<ih] (scan_init iw ih)"

record analysis =
  bbox :: "int \<times> int \<times> int \<times> int"
  cx :: "rat option"
  cy :: "rat option"
  res_w :: nat
  res_h :: nat

definition centroid_div :: "rat \<Rightarrow> rat \<Rightarrow> rat option" where
  \<comment> \<open>\<open>sumX / sumA\<close>; the sums are never negative, and \<open>sumA = 0\<close> forces
      \<open>sumX = 0\<close>, so the only undefined quotient is \<open>0 / 0\<close>, NaN\<close>
  "centroid_div s t = (if t = 0 then None else Some (fdiv s t))"

definition findAlphaBBoxAndCentroid :: "config \<Rightarrow> image \<Rightarrow> analysis option" where
  "findAlphaBBoxAndCentroid cfg rgbaBuf =
     (let iw = width rgbaBuf; ih = height rgbaBuf;
          a = extractChannel_alpha_raw rgbaBuf;
          s = scan_all (ALPHA_THRESH cfg) iw ih a
      in if x1 s < x0 s \<or> y1 s < y0 s then None
         else Some \<lparr>bbox = (x0 s, y0 s, x1 s + 1, y1 s + 1),
                    cx = centroid_div (sumX s) (sumA s),
                    cy = centroid_div (sumY s) (sumA s),
                    res_w = iw, res_h = ih\<rparr>)"

text \<open>A pixel of the buffer is foreground when its alpha exceeds the threshold.\<close>

definition foreground :: "config \<Rightarrow> image \<Rightarrow> nat \<Rightarrow> nat \<Rightarrow> bool" where
  "foreground cfg img x y =
     (x < width img \<and> y < height img \<and>
      (case buf_at (extractChannel_alpha_raw img) (y * width img + x) of
         None \<Rightarrow> False
       | Some alpha \<Rightarrow> ALPHA_THRESH cfg < uint alpha))"

definition coords :: "nat \<Rightarrow> nat \<Rightarrow> (nat \<times> nat) list" where
  \<comment> \<open>the pixel positions \<open>(x, y)\<close> in the order in which the loops visit them\<close>
  "coords iw ih = concat (map (\<lambda>y. map (\<lambda>x. (x, y)) [0..<iw]) [0..<ih])"

section \<open>smoothAlpha (lines 79 to 100)\<close>

text \<open>
  A sharp object is a mutable bag of options over its input: a method of the library
  sets an option on the object it is called on and returns that same object, and
  \<^verbatim>\<open>toBuffer\<close> runs the native pipeline on the options set so far. The objects live in
  a heap and are addressed by their index. What the native pipeline computes from the
  options is not fixed here: it is the parameter \<open>run\<close>.
\<close>

datatype channel = Red | Green | Blue | Alpha

datatype format = AsInput | Raw | Png

record sharp_options =
  opt_removeAlpha :: bool
  opt_extractChannel :: "channel option"
  opt_blur :: "rat option"
  opt_threshold :: "int option"
  opt_format :: format

record sharp_object =
  input :: image
  options :: sharp_options

type_synonym heap = "sharp_object list"
type_synonym pipeline = "sharp_options \<Rightarrow> image \<Rightarrow> error + byte list"

definition sharp :: "image \<Rightarrow> heap \<Rightarrow> nat \<times> heap" where
  \<comment> \<open>\<^verbatim>\<open>sharp(buf)\<close>: a new object\<close>
  "sharp buf hp =
     (length hp,
      hp @ [\<lparr>input = buf,
             options = \<lparr>opt_removeAlpha = False, opt_extractChannel = None, opt_blur = None,
                        opt_threshold = None, opt_format = AsInput\<rparr>\<rparr>])"

definition set_option :: "(sharp_options \<Rightarrow> sharp_options) \<Rightarrow> nat \<Rightarrow> heap \<Rightarrow> nat \<times> heap" where
  "set_option f r hp = (r, hp[r := (hp ! r)\<lparr>options := f (options (hp ! r))\<rparr>])"

definition removeAlpha :: "nat \<Rightarrow> heap \<Rightarrow> nat \<times> heap" where
  "removeAlpha = set_option (\<lambda>opts. opts\<lparr>opt_removeAlpha := True\<rparr>)"

definition extractChannel :: "channel \<Rightarrow> nat \<Rightarrow> heap \<Rightarrow> nat \<times> heap" where
  "extractChannel c = set_option (\<lambda>opts. opts\<lparr>opt_extractChannel := Some c\<rparr>)"

definition blur :: "rat \<Rightarrow> nat \<Rightarrow> heap \<Rightarrow> nat \<times> heap" where
  "blur sigma = set_option (\<lambda>opts. opts\<lparr>opt_blur := Some sigma\<rparr>)"

definition threshold :: "int \<Rightarrow> nat \<Rightarrow> heap \<Rightarrow> nat \<times> heap" where
  "threshold t = set_option (\<lambda>opts. opts\<lparr>opt_threshold := Some t\<rparr>)"

definition raw :: "nat \<Rightarrow> heap \<Rightarrow> nat \<times> heap" where
  "raw = set_option (\<lambda>opts. opts\<lparr>opt_format := Raw\<rparr>)"

definition toBuffer :: "pipeline \<Rightarrow> nat \<Rightarrow> heap \<Rightarrow> error + byte list" where
  "toBuffer run r hp = run (options (hp ! r)) (input (hp ! r))"

fun rgb_triples :: "byte list \<Rightarrow> (byte \<times> byte \<times> byte) list" where
  "rgb_triples (r # g # b # rest) = (r, g, b) # rgb_triples rest"
| "rgb_triples rest = []"

definition raw_grey :: "nat \<Rightarrow> nat \<Rightarrow> byte list \<Rightarrow> error + byte list" where
  \<comment> \<open>\<^verbatim>\<open>sharp(buf, {raw: {width, height, channels: 1}})\<close>: a buffer that is too short
      is refused, a longer one is read up to the size of the image\<close>
  "raw_grey iw ih buf = (if length buf < iw * ih then Inl BadRawInput else Inr (take (iw * ih) buf))"

definition raw_rgb :: "nat \<Rightarrow> nat \<Rightarrow> byte list \<Rightarrow> error + (byte \<times> byte \<times> byte) list" where
  \<comment> \<open>\<^verbatim>\<open>sharp(buf, {raw: {width, height, channels: 3}})\<close>\<close>
  "raw_rgb iw ih buf =
     (if length buf < 3 * (iw * ih) then Inl BadRawInput
      else Inr (rgb_triples (take (3 * (iw * ih)) buf)))"

definition joinChannel :: "nat \<Rightarrow> nat \<Rightarrow> (byte \<times> byte \<times> byte) list \<Rightarrow> byte list \<Rightarrow> error + image" where
  \<comment> \<open>\<^verbatim>\<open>sharp(rgbPng).joinChannel(alphaPng)\<close>: the alpha plane becomes the fourth channel\<close>
  "joinChannel iw ih rgb al =
     (if length rgb = length al
      then Inr \<lparr>width = iw, height = ih,
                pixels = map (\<lambda>((r, g, b), v). (r, g, b, v)) (zip rgb al)\<rparr>
      else Inl BadChannels)"

definition smoothAlpha :: "pipeline \<Rightarrow> config \<Rightarrow> image \<Rightarrow> error + image" where
  "smoothAlpha run cfg rgbaBuf =
     (let (img, hp) = sharp rgbaBuf [];
          mw = width rgbaBuf; mh = height rgbaBuf;
          (rgb, hp) = removeAlpha img hp;
          (alpha, hp) = extractChannel Alpha img hp;
          (alpha, hp) = blur (SMOOTH_BLUR cfg) alpha hp;
          (alpha, hp) = threshold (SMOOTH_THRESH cfg) alpha hp;
          (alpha, hp) = raw alpha hp
      in case toBuffer run alpha hp of
           Inl e \<Rightarrow> Inl e
         | Inr alphaBuf \<Rightarrow>
             (case raw_grey mw mh alphaBuf of
                Inl e \<Rightarrow> Inl e
              | Inr alphaPng \<Rightarrow>
                  (let (rgb, hp) = raw rgb hp
                   in case toBuffer run rgb hp of
                        Inl e \<Rightarrow> Inl e
                      | Inr rgbBuf \<Rightarrow>
                          (case raw_rgb mw mh rgbBuf of
                             Inl e \<Rightarrow> Inl e
                           | Inr rgbPng \<Rightarrow> joinChannel mw mh rgbPng alphaPng))))"

section \<open>removeBgToRGBA (lines 102 to 123)\<close>

text \<open>
  \<^verbatim>\<open>removeBackground\<close> is a library call: a parameter that, for a file and an
  optional configuration, either throws or returns an image with or without an alpha
  channel.
\<close>

datatype rb_config = RbDefault | RbOptions string bool string

datatype blob = OpaqueImage nat nat "(byte \<times> byte \<times> byte) list" | AlphaImage image

type_synonym remover = "string \<Rightarrow> rb_config \<Rightarrow> error + blob"

definition ensureAlpha :: "blob \<Rightarrow> image" where
  \<comment> \<open>\<^verbatim>\<open>sharp(buf).ensureAlpha().png().toBuffer()\<close>\<close>
  "ensureAlpha bl =
     (case bl of
        AlphaImage img \<Rightarrow> img
      | OpaqueImage iw ih px \<Rightarrow>
          \<lparr>width = iw, height = ih, pixels = map (\<lambda>(r, g, b). (r, g, b, 255)) px\<rparr>)"

definition removeBgToRGBA :: "config \<Rightarrow> remover \<Rightarrow> pipeline \<Rightarrow> string \<Rightarrow> error + image" where
  "removeBgToRGBA cfg removeBackground run filePath =
     (case (if HQ cfg
            then (case removeBackground filePath (RbOptions ''png'' False ''medium'') of
                    Inl e \<Rightarrow> removeBackground filePath RbDefault
                  | Inr bl \<Rightarrow> Inr bl)
            else removeBackground filePath RbDefault) of
        Inl e \<Rightarrow> Inl e
      | Inr bl \<Rightarrow>
          (let rgba = ensureAlpha bl
           in if HQ cfg then smoothAlpha run cfg rgba else Inr rgba))"

section \<open>toSquareWebP (lines 125 to 173)\<close>

record webp_options =
  quality :: "int option"
  alphaQuality :: "int option"
  lossless :: bool
  smartSubsample :: bool
  effort :: "int option"
  nearLossless :: bool

definition webp_options_of :: "env \<Rightarrow> webp_options" where
  \<comment> \<open>the argument of \<^verbatim>\<open>.webp\<close>, lines 164 to 171\<close>
  "webp_options_of ev =
     \<lparr>quality = parseInt (env_or ev ''QUALITY'' ''82''),
      alphaQuality = parseInt (env_or ev ''AQUALITY'' ''80''),
      lossless = False,
      smartSubsample = True,
      effort = parseInt (env_or ev ''EFFORT'' ''6''),
      nearLossless = False\<rparr>"

definition in_range :: "int option \<Rightarrow> int \<Rightarrow> int \<Rightarrow> bool" where
  "in_range v lo hi = (case v of None \<Rightarrow> False | Some n \<Rightarrow> lo \<le> n \<and> n \<le> hi)"

definition webp_valid :: "webp_options \<Rightarrow> bool" where
  \<comment> \<open>the library refuses a quality outside 1..100, an alpha quality outside 0..100 and
      an effort outside 0..6\<close>
  "webp_valid opts =
     (in_range (quality opts) 1 100 \<and> in_range (alphaQuality opts) 0 100
      \<and> in_range (effort opts) 0 6)"

definition maxContent :: "config \<Rightarrow> rat \<Rightarrow> rat" where
  "maxContent cfg padPct = fmul (of_int (SIZE cfg)) (fsub 1 (fmul padPct 2))"

definition scale :: "config \<Rightarrow> rat \<Rightarrow> nat \<Rightarrow> nat \<Rightarrow> rat" where
  "scale cfg padPct mw mh =
     min (fdiv (maxContent cfg padPct) (of_nat mw)) (fdiv (maxContent cfg padPct) (of_nat mh))"

definition nw :: "config \<Rightarrow> rat \<Rightarrow> nat \<Rightarrow> nat \<Rightarrow> int" where
  "nw cfg padPct mw mh = max 1 (Math_floor (fmul (of_nat mw) (scale cfg padPct mw mh)))"

definition nh :: "config \<Rightarrow> rat \<Rightarrow> nat \<Rightarrow> nat \<Rightarrow> int" where
  "nh cfg padPct mw mh = max 1 (Math_floor (fmul (of_nat mh) (scale cfg padPct mw mh)))"

definition by_px :: "config \<Rightarrow> int" where
  \<comment> \<open>the constant \<^verbatim>\<open>by\<close> of line 137\<close>
  "by_px cfg = Math_round (fmul (V_BIAS_PCT cfg) (of_int (SIZE cfg)))"

type_synonym centroid = "rat option \<times> rat option"

definition placement :: "config \<Rightarrow> rat \<Rightarrow> nat \<Rightarrow> nat \<Rightarrow> centroid option \<Rightarrow> (int \<times> int) option" where
  \<comment> \<open>\<open>(left, top)\<close>, lines 139 to 149; \<open>None\<close> when the centroid is NaN, which makes
      both offsets NaN\<close>
  "placement cfg padPct mw mh centroid =
     (case centroid of
        Some (ccx, ccy) \<Rightarrow>
          (case (ccx, ccy) of
             (Some vx, Some vy) \<Rightarrow>
               (let cxScaled = fmul vx (scale cfg padPct mw mh);
                    cyScaled = fmul vy (scale cfg padPct mw mh)
                in Some (Math_round (fsub (fdiv (of_int (SIZE cfg)) 2) cxScaled),
                         Math_round (fadd (fsub (fdiv (of_int (SIZE cfg)) 2) cyScaled)
                                          (of_int (by_px cfg)))))
           | _ \<Rightarrow> None)
      | None \<Rightarrow>
          Some (max 0 (Math_floor (fdiv (fsub (of_int (SIZE cfg)) (of_int (nw cfg padPct mw mh))) 2)),
                max 0 (Math_floor (fadd (fdiv (fsub (of_int (SIZE cfg)) (of_int (nh cfg padPct mw mh))) 2)
                                        (of_int (by_px cfg))))))"

text \<open>
  The value of \<^verbatim>\<open>toSquareWebP\<close> is the encoded canvas: the canvas created at lines
  151 to 158, the size of the resized crop, the offset at which it is composited and the
  encoder's options. The library refuses a canvas smaller than one pixel, an offset that
  is not an integer, an invalid encoder option, an overlay larger than the canvas and an
  offset outside \<open>-100000000 .. 100000000\<close>; the encoder fails on a canvas of 16383
  pixels or more. The record holds what the code hands to the library, once the library
  has accepted it; the pixels of the composited canvas and the bytes of the WebP stream
  are the library's and are not modelled.
\<close>

record webp_file =
  canvas_width :: int
  canvas_height :: int
  resized_width :: int
  resized_height :: int
  off_left :: int
  off_top :: int
  encoding :: webp_options

definition toSquareWebP :: "config \<Rightarrow> env \<Rightarrow> image \<Rightarrow> rat \<Rightarrow> centroid option \<Rightarrow> error + webp_file" where
  "toSquareWebP cfg ev rgbaBuf padPct centroid =
     (let mw = width rgbaBuf; mh = height rgbaBuf;
          rw = nw cfg padPct mw mh; rh = nh cfg padPct mw mh;
          opts = webp_options_of ev
      in if SIZE cfg < 1 then Inl BadCreate
         else case placement cfg padPct mw mh centroid of
                None \<Rightarrow> Inl BadOffset
              | Some (l, t) \<Rightarrow>
                  if \<not> webp_valid opts then Inl BadWebpOption
                  else if SIZE cfg < rw \<or> SIZE cfg < rh then Inl OverlayTooLarge
                  else if l < - 100000000 \<or> 100000000 < l \<or> t < - 100000000 \<or> 100000000 < t
                  then Inl OffsetOutOfRange
                  else if 16383 \<le> SIZE cfg then Inl TooLargeForWebp
                  else Inr \<lparr>canvas_width = SIZE cfg, canvas_height = SIZE cfg,
                            resized_width = rw, resized_height = rh,
                            off_left = l, off_top = t, encoding = opts\<rparr>)"

section \<open>processOne (lines 175 to 206)\<close>

definition crop_and_centroid :: "config \<Rightarrow> image \<Rightarrow> error + image \<times> centroid option" where
  \<comment> \<open>lines 180 to 199\<close>
  "crop_and_centroid cfg noBg =
     (case findAlphaBBoxAndCentroid cfg noBg of
        Some result \<Rightarrow>
          (case bbox result of
             (b0, b1, b2, b3) \<Rightarrow>
               (case extract_area noBg b0 b1 (b2 - b0) (b3 - b1) of
                  Inl e \<Rightarrow> Inl e
                | Inr crop \<Rightarrow>
                    Inr (crop, Some (map_option (\<lambda>c. fsub c (of_int b0)) (cx result),
                                     map_option (\<lambda>c. fsub c (of_int b1)) (cy result)))))
      | None \<Rightarrow> Inr (noBg, None))"

definition processOne :: "config \<Rightarrow> env \<Rightarrow> remover \<Rightarrow> pipeline \<Rightarrow> string \<Rightarrow> error + webp_file" where
  \<comment> \<open>the value written to \<^verbatim>\<open><base>.webp\<close>\<close>
  "processOne cfg ev removeBackground run file =
     (case removeBgToRGBA cfg removeBackground run file of
        Inl e \<Rightarrow> Inl e
      | Inr noBg \<Rightarrow>
          (case crop_and_centroid cfg noBg of
             Inl e \<Rightarrow> Inl e
           | Inr (crop, centroid) \<Rightarrow> toSquareWebP cfg ev crop (PADDING_PCT cfg) centroid))"

section \<open>What the scan computes, over the visiting order\<close>

text \<open>
  The two loops visit the positions in row-major order, so the scan is one fold over the
  list \<open>coords\<close>. Over a list of positions, \<open>total_alpha\<close>, \<open>moment_x\<close> and
  \<open>moment_y\<close> are the exact integer sums of which \<open>sumA\<close>, \<open>sumX\<close> and \<open>sumY\<close>
  are the double approximations.
\<close>

definition is_fg :: "int \<Rightarrow> nat \<Rightarrow> byte list \<Rightarrow> nat \<times> nat \<Rightarrow> bool" where
  "is_fg t iw a p =
     (case buf_at a (snd p * iw + fst p) of None \<Rightarrow> False | Some al \<Rightarrow> t < uint al)"

definition weight :: "int \<Rightarrow> nat \<Rightarrow> byte list \<Rightarrow> nat \<times> nat \<Rightarrow> int" where
  "weight t iw a p =
     (case buf_at a (snd p * iw + fst p) of
        None \<Rightarrow> 0
      | Some al \<Rightarrow> if t < uint al then uint al else 0)"

definition scan_list :: "int \<Rightarrow> nat \<Rightarrow> byte list \<Rightarrow> (nat \<times> nat) list \<Rightarrow> scan \<Rightarrow> scan" where
  "scan_list t iw a ps s = fold (\<lambda>p. scan_pixel t iw a (snd p) (fst p)) ps s"

definition total_alpha :: "int \<Rightarrow> nat \<Rightarrow> byte list \<Rightarrow> (nat \<times> nat) list \<Rightarrow> int" where
  "total_alpha t iw a ps = sum_list (map (weight t iw a) ps)"

definition moment_x :: "int \<Rightarrow> nat \<Rightarrow> byte list \<Rightarrow> (nat \<times> nat) list \<Rightarrow> int" where
  "moment_x t iw a ps = sum_list (map (\<lambda>p. weight t iw a p * int (fst p)) ps)"

definition moment_y :: "int \<Rightarrow> nat \<Rightarrow> byte list \<Rightarrow> (nat \<times> nat) list \<Rightarrow> int" where
  "moment_y t iw a ps = sum_list (map (\<lambda>p. weight t iw a p * int (snd p)) ps)"

section \<open>The options of the shared object of smoothAlpha\<close>

definition smooth_options :: "config \<Rightarrow> sharp_options" where
  \<comment> \<open>the options of the object \<open>img\<close> of \<open>smoothAlpha\<close> at both of its \<open>toBuffer\<close> calls\<close>
  "smooth_options cfg =
     \<lparr>opt_removeAlpha = True, opt_extractChannel = Some Alpha,
      opt_blur = Some (SMOOTH_BLUR cfg), opt_threshold = Some (SMOOTH_THRESH cfg),
      opt_format = Raw\<rparr>"

definition refusing :: "pipeline \<Rightarrow> pipeline" where
  \<comment> \<open>a pipeline that does on the options of \<open>smoothAlpha\<close> what the library does:
      \<^verbatim>\<open>removeAlpha\<close> has dropped the alpha channel that \<^verbatim>\<open>extractChannel\<close>
      then asks for, and \<^verbatim>\<open>toBuffer\<close> throws; on other options it is \<open>run\<close>\<close>
  "refusing run opts img =
     (if opt_removeAlpha opts \<and> opt_extractChannel opts = Some Alpha then Inl PipelineFailed
      else run opts img)"

section \<open>Concrete inputs used below\<close>

definition sample :: image where
  "sample = \<lparr>width = 3, height = 2,
             pixels = [(1, 2, 3, 0), (1, 2, 3, 17), (1, 2, 3, 255),
                       (0, 0, 0, 16), (0, 0, 0, 200), (9, 9, 9, 0)]\<rparr>"

definition blank :: "nat \<Rightarrow> nat \<Rightarrow> image" where
  "blank iw ih = \<lparr>width = iw, height = ih, pixels = replicate (iw * ih) (0, 0, 0, 0)\<rparr>"

definition streak :: image where
  \<comment> \<open>a row of ten pixels: a faint one at the left end, an opaque one at the right end\<close>
  "streak = \<lparr>width = 10, height = 1,
             pixels = [(0, 0, 0, 17), (0, 0, 0, 0), (0, 0, 0, 0), (0, 0, 0, 0), (0, 0, 0, 0),
                       (0, 0, 0, 0), (0, 0, 0, 0), (0, 0, 0, 0), (0, 0, 0, 0), (0, 0, 0, 255)]\<rparr>"

definition one_pixel :: image where
  "one_pixel = \<lparr>width = 1, height = 1, pixels = [(7, 0, 0, 255)]\<rparr>"


definition remover_of :: "image \<Rightarrow> remover" where
  \<comment> \<open>a background remover that returns the given image\<close>
  "remover_of img f c = Inr (AlphaImage img)"

definition failing_hq :: remover where
  \<comment> \<open>a background remover whose high-quality tier throws and whose default tier returns
      an image of one pixel without an alpha channel\<close>
  "failing_hq f c =
     (case c of
        RbDefault \<Rightarrow> Inr (OpaqueImage 1 1 [(7, 0, 0)])
      | RbOptions t fa m \<Rightarrow> Inl RemovalFailed)"

definition const_run :: pipeline where
  "const_run opts img = Inr [1, 2, 3]"

definition hq_config :: config where
  "hq_config = default_config\<lparr>HQ := True\<rparr>"

definition negative_threshold :: config where
  \<comment> \<open>\<^verbatim>\<open>ATHRESH=-1\<close>\<close>
  "negative_threshold = default_config\<lparr>ALPHA_THRESH := - 1\<rparr>"

definition size_1024 :: config where
  \<comment> \<open>\<^verbatim>\<open>SIZE=1024\<close>\<close>
  "size_1024 = default_config\<lparr>SIZE := 1024\<rparr>"

definition size_huge :: config where
  \<comment> \<open>\<^verbatim>\<open>SIZE=9007199254740991\<close>, the largest odd integer among the doubles\<close>
  "size_huge = default_config\<lparr>SIZE := 2 ^ 53 - 1\<rparr>"

definition pad_033 :: rat where
  \<comment> \<open>\<^verbatim>\<open>PAD=0.033\<close>\<close>
  "pad_033 = fl (33 / 1000)"

definition quality_90 :: env where
  "quality_90 = [''QUALITY'' \<mapsto> ''90'']"

definition default_webp :: webp_options where
  "default_webp = \<lparr>quality = Some 82, alphaQuality = Some 80, lossless = False,
                    smartSubsample = True, effort = Some 6, nearLossless = False\<rparr>"

section \<open>Properties of the rounding\<close>

text \<open>
  The rounding has a relative error of at most \<open>2^-53\<close>, is odd (\<open>fl (- q) = - fl q\<close>),
  keeps the sign, never crosses an integer below \<open>2^53\<close>, and is exact on integers and
  half-integers below \<open>2^53\<close>.
\<close>

lemma bitlen_powi:
  assumes "0 < a"
  shows "(2::rat) powi (bitlen a - 1) \<le> of_int a" "of_int a < (2::rat) powi bitlen a"
proof -
  from bitlen_bounds [OF assms]
  have lo: "2 ^ nat (bitlen a - 1) \<le> a" and hi: "a < 2 ^ nat (bitlen a)" by auto
  have b1: "1 \<le> bitlen a" using assms by (simp add: bitlen_alt_def)
  have "(2::rat) powi (bitlen a - 1) = 2 ^ nat (bitlen a - 1)"
    using b1 by (simp add: power_int_def)
  also have "\<dots> = of_int (2 ^ nat (bitlen a - 1))" by simp
  also have "\<dots> \<le> of_int a" using lo by (simp only: of_int_le_iff)
  finally show "(2::rat) powi (bitlen a - 1) \<le> of_int a" .
  have "(of_int a :: rat) < of_int (2 ^ nat (bitlen a))" using hi by (simp only: of_int_less_iff)
  also have "\<dots> = 2 powi bitlen a" using b1 by (simp add: power_int_def)
  finally show "of_int a < (2::rat) powi bitlen a" .
qed

lemma ilog2_bounds:
  assumes "q \<noteq> 0"
  shows "2 powi ilog2 q \<le> \<bar>q\<bar>" "\<bar>q\<bar> < 2 powi (ilog2 q + 1)"
proof -
  obtain a b where ab: "quotient_of \<bar>q\<bar> = (a, b)" by (cases "quotient_of \<bar>q\<bar>")
  have bpos: "0 < b" using ab by (rule quotient_of_denom_pos)
  have qab: "\<bar>q\<bar> = of_int a / of_int b" using ab by (rule quotient_of_div)
  have "0 < \<bar>q\<bar>" using assms by simp
  then have apos: "0 < a" using qab bpos by (simp add: zero_less_divide_iff)
  define k where "k = bitlen a - bitlen b"
  note A = bitlen_powi [OF apos] and B = bitlen_powi [OF bpos]
  have bq: "(0::rat) < of_int b" using bpos by simp
  have lo: "2 powi (k - 1) < \<bar>q\<bar>"
  proof -
    have "(2::rat) powi (k - 1) * of_int b < 2 powi (k - 1) * 2 powi bitlen b"
      using B(2) by simp
    also have "\<dots> = 2 powi (bitlen a - 1)"
      by (simp add: k_def power_int_add [symmetric])
    also have "\<dots> \<le> of_int a" by (rule A(1))
    finally show ?thesis using bq by (simp add: qab pos_less_divide_eq)
  qed
  have hi: "\<bar>q\<bar> < 2 powi (k + 1)"
  proof -
    have "of_int a < (2::rat) powi bitlen a" by (rule A(2))
    also have "\<dots> = 2 powi (k + 1) * 2 powi (bitlen b - 1)"
      by (simp add: k_def power_int_add [symmetric])
    also have "\<dots> \<le> 2 powi (k + 1) * of_int b"
      using B(1) by simp
    finally show ?thesis using bq by (simp add: qab pos_divide_less_eq)
  qed
  have il: "ilog2 q = (if 2 powi k \<le> \<bar>q\<bar> then k else k - 1)"
    by (simp add: ilog2_def ab k_def Let_def)
  show "2 powi ilog2 q \<le> \<bar>q\<bar>" using lo by (simp add: il)
  show "\<bar>q\<bar> < 2 powi (ilog2 q + 1)" using hi by (auto simp: il not_le)
qed

lemma rne_bounds: "\<lfloor>m\<rfloor> \<le> rne m" "rne m \<le> \<lceil>m\<rceil>" "\<bar>of_int (rne m) - m\<bar> \<le> 1 / 2"
proof -
  show "\<lfloor>m\<rfloor> \<le> rne m" by (simp add: rne_def Let_def)
  show "rne m \<le> \<lceil>m\<rceil>"
    unfolding rne_def Let_def by (auto simp: ceiling_altdef)
  have f: "of_int \<lfloor>m\<rfloor> \<le> m" "m < of_int \<lfloor>m\<rfloor> + 1" by linarith+
  show "\<bar>of_int (rne m) - m\<bar> \<le> 1 / 2"
  proof (cases "m - of_int \<lfloor>m\<rfloor> < 1 / 2")
    case True
    then show ?thesis using f by (simp add: rne_def Let_def)
  next
    case False
    note nlt = this
    show ?thesis
    proof (cases "1 / 2 < m - of_int \<lfloor>m\<rfloor>")
      case True
      then show ?thesis using f by (simp add: rne_def Let_def abs_le_iff)
    next
      case False
      with nlt have "m - of_int \<lfloor>m\<rfloor> = 1 / 2" by linarith
      then show ?thesis by (simp add: rne_def Let_def abs_le_iff)
    qed
  qed
qed

lemma rne_of_int: "rne (of_int z) = z"
  by (simp add: rne_def)

lemma fl_error:
  "\<bar>fl q - q\<bar> \<le> \<bar>q\<bar> / 2 ^ 53"
proof (cases "q = 0")
  case True
  then show ?thesis by (simp add: fl_def)
next
  case False
  define e where "e = ilog2 q - 52"
  define p where "p = (2::rat) powi e"
  have ppos: "0 < p" by (simp add: p_def)
  have flq: "fl q = of_int (rne (q / p)) * p"
    using False by (simp add: fl_def e_def p_def Let_def)
  have "fl q - q = (of_int (rne (q / p)) - q / p) * p"
    using ppos by (simp add: flq left_diff_distrib)
  then have "\<bar>fl q - q\<bar> = \<bar>of_int (rne (q / p)) - q / p\<bar> * p"
    using ppos by (simp only: abs_mult abs_of_pos)
  also have "\<dots> \<le> 1 / 2 * p"
    using rne_bounds(3) [of "q / p"] ppos by (simp only: mult_right_mono less_imp_le)
  also have "\<dots> = 2 powi ilog2 q / 2 ^ 53"
    by (simp add: p_def e_def power_int_diff)
  also have "\<dots> \<le> \<bar>q\<bar> / 2 ^ 53"
    using ilog2_bounds(1) [OF False] by (simp add: divide_right_mono)
  finally show ?thesis .
qed

lemma fl_small_form:
  assumes "0 < q" "q < 2 ^ 53"
  obtains n where "fl q = of_int (rne (q * 2 ^ n)) / 2 ^ n"
proof -
  have q0: "q \<noteq> 0" using assms by simp
  have "2 powi ilog2 q \<le> q" using ilog2_bounds(1) [OF q0] assms by simp
  also have "q < 2 powi 53" using assms by simp
  finally have lt: "(2::rat) powi ilog2 q < 2 powi 53" .
  have "ilog2 q < 53" by (rule power_int_le_imp_less_exp [OF _ lt]) simp_all
  then have e: "ilog2 q - 52 = - int (nat (52 - ilog2 q))" by simp
  have "fl q = of_int (rne (q * 2 ^ nat (52 - ilog2 q))) / 2 ^ nat (52 - ilog2 q)"
    using q0 unfolding fl_def Let_def e power_int_minus power_int_of_nat
    by (simp add: divide_inverse)
  then show ?thesis by (rule that)
qed

lemma fl_ge_int:
  assumes "of_int N \<le> q" "0 < q" "q < 2 ^ 53"
  shows "of_int N \<le> fl q"
proof -
  obtain n where f: "fl q = of_int (rne (q * 2 ^ n)) / 2 ^ n"
    using assms(2,3) by (rule fl_small_form)
  have "(of_int (N * 2 ^ n) :: rat) \<le> q * 2 ^ n" using assms(1) by simp
  then have "N * 2 ^ n \<le> \<lfloor>q * 2 ^ n\<rfloor>" by (simp only: le_floor_iff)
  also have "\<dots> \<le> rne (q * 2 ^ n)" by (rule rne_bounds(1))
  finally have "(of_int (N * 2 ^ n) :: rat) \<le> of_int (rne (q * 2 ^ n))"
    by (simp only: of_int_le_iff)
  then show ?thesis by (simp add: f pos_le_divide_eq)
qed

lemma fl_le_int:
  assumes "q \<le> of_int N" "0 < q" "q < 2 ^ 53"
  shows "fl q \<le> of_int N"
proof -
  obtain n where f: "fl q = of_int (rne (q * 2 ^ n)) / 2 ^ n"
    using assms(2,3) by (rule fl_small_form)
  have "q * 2 ^ n \<le> (of_int (N * 2 ^ n) :: rat)" using assms(1) by simp
  then have "\<lceil>q * 2 ^ n\<rceil> \<le> N * 2 ^ n" by (simp only: ceiling_le_iff)
  with rne_bounds(2) [of "q * 2 ^ n"] have "rne (q * 2 ^ n) \<le> N * 2 ^ n" by linarith
  then have "(of_int (rne (q * 2 ^ n)) :: rat) \<le> of_int (N * 2 ^ n)"
    by (simp only: of_int_le_iff)
  then show ?thesis by (simp add: f pos_divide_le_eq)
qed

lemma fl_small_eq:
  assumes "0 < q" "q < 2 ^ 53"
  shows "ilog2 q < 53"
    and "fl q = of_int (rne (q * 2 ^ nat (52 - ilog2 q))) / 2 ^ nat (52 - ilog2 q)"
proof -
  have q0: "q \<noteq> 0" using assms by simp
  have "2 powi ilog2 q \<le> q" using ilog2_bounds(1) [OF q0] assms by simp
  also have "q < 2 powi 53" using assms by simp
  finally have lt: "(2::rat) powi ilog2 q < 2 powi 53" .
  show l: "ilog2 q < 53" by (rule power_int_le_imp_less_exp [OF _ lt]) simp_all
  then have e: "ilog2 q - 52 = - int (nat (52 - ilog2 q))" by simp
  show "fl q = of_int (rne (q * 2 ^ nat (52 - ilog2 q))) / 2 ^ nat (52 - ilog2 q)"
    using q0 unfolding fl_def Let_def e power_int_minus power_int_of_nat
    by (simp add: divide_inverse)
qed

lemma ilog2_minus: "ilog2 (- q) = ilog2 q"
  by (simp add: ilog2_def)

lemma rne_minus: "rne (- m) = - rne m"
proof (cases "m = of_int \<lfloor>m\<rfloor>")
  case True
  then obtain z where "m = of_int z" ..
  then have "rne m = z" "rne (- m) = - z"
    using rne_of_int [of z] rne_of_int [of "- z"] by simp_all
  then show ?thesis by simp
next
  case False
  then have fm: "\<lfloor>- m\<rfloor> = - \<lfloor>m\<rfloor> - 1"
    by (simp add: floor_minus ceiling_altdef)
  have f: "of_int \<lfloor>m\<rfloor> \<le> m" "m < of_int \<lfloor>m\<rfloor> + 1" by linarith+
  have f1: "of_int \<lfloor>m\<rfloor> < m" using f(1) False by (auto simp: less_le)
  consider "m - of_int \<lfloor>m\<rfloor> < 1 / 2" | "1 / 2 < m - of_int \<lfloor>m\<rfloor>"
    | "m - of_int \<lfloor>m\<rfloor> = 1 / 2" by linarith
  then show ?thesis
  proof cases
    case 1
    then show ?thesis unfolding rne_def Let_def fm by simp
  next
    case 2
    then show ?thesis unfolding rne_def Let_def fm by simp
  next
    case 3
    then show ?thesis unfolding rne_def Let_def fm by simp
  qed
qed

lemma fl_minus: "fl (- q) = - fl q"
  by (simp add: fl_def ilog2_minus Let_def rne_minus)

lemma fl_nonneg: "0 \<le> q \<Longrightarrow> 0 \<le> fl q"
proof -
  assume q: "0 \<le> q"
  have p: "(0::rat) < 2 powi (ilog2 q - 52)" by simp
  then have "0 \<le> q / 2 powi (ilog2 q - 52)" using q by simp
  then have "0 \<le> \<lfloor>q / 2 powi (ilog2 q - 52)\<rfloor>" by simp
  with rne_bounds(1) [of "q / 2 powi (ilog2 q - 52)"]
  have "0 \<le> rne (q / 2 powi (ilog2 q - 52))" by linarith
  then show ?thesis using p by (simp add: fl_def Let_def)
qed

lemma fl_nonpos: "q \<le> 0 \<Longrightarrow> fl q \<le> 0"
  using fl_nonneg [of "- q"] by (simp add: fl_minus)

lemma fl_exact_pos:
  assumes "0 < m" "m < 2 ^ 53"
  shows "fl (of_int m / 2 ^ k) = of_int m / 2 ^ k"
proof -
  define q :: rat where "q = of_int m / 2 ^ k"
  have mr: "(of_int m :: rat) < 2 ^ 53"
  proof -
    have "(of_int m :: rat) < of_int (2 ^ 53)" using assms(2) by (simp only: of_int_less_iff)
    then show ?thesis by simp
  qed
  have qpos: "0 < q" using assms(1) by (simp add: q_def)
  have "q \<le> of_int m"
    using assms(1) by (simp add: q_def divide_le_eq mult_le_cancel_left1 self_le_power)
  then have qlt: "q < 2 ^ 53" using mr by simp
  note E = fl_small_eq [OF qpos qlt]
  define n where "n = nat (52 - ilog2 q)"
  have q0: "q \<noteq> 0" using qpos by simp
  have "2 powi ilog2 q \<le> q" using ilog2_bounds(1) [OF q0] qpos by simp
  also have "q < 2 ^ 53 / 2 ^ k" using mr by (simp add: q_def divide_strict_right_mono)
  also have "\<dots> = 2 powi (53 - int k)" by (simp add: power_int_diff)
  finally have lt: "(2::rat) powi ilog2 q < 2 powi (53 - int k)" .
  have "ilog2 q < 53 - int k"
  proof (rule ccontr)
    assume "\<not> ilog2 q < 53 - int k"
    then have "53 - int k \<le> ilog2 q" by simp
    then have "(2::rat) powi (53 - int k) \<le> 2 powi ilog2 q"
      by (intro power_int_increasing) simp_all
    with lt show False by simp
  qed
  then have kn: "k \<le> n" by (simp add: n_def)
  have pw: "(2::rat) ^ n = 2 ^ (n - k) * 2 ^ k"
    using kn by (simp add: power_add [symmetric])
  have qn: "q * 2 ^ n = of_int (m * 2 ^ (n - k))"
    by (simp add: q_def pw)
  then have "rne (q * 2 ^ n) = m * 2 ^ (n - k)" by (simp only: rne_of_int)
  then have "fl q = of_int (m * 2 ^ (n - k)) / 2 ^ n"
    using E(2) by (simp add: n_def)
  also have "\<dots> = q * 2 ^ n / 2 ^ n" by (simp only: qn)
  also have "\<dots> = q" by simp
  finally show ?thesis by (simp add: q_def)
qed

lemma fl_exact:
  assumes "\<bar>m\<bar> < 2 ^ 53"
  shows "fl (of_int m / 2 ^ k) = of_int m / 2 ^ k"
proof -
  consider "m = 0" | "0 < m" | "m < 0" by linarith
  then show ?thesis
  proof cases
    case 1
    then show ?thesis by (simp add: fl_def)
  next
    case 2
    then show ?thesis using assms by (intro fl_exact_pos) simp_all
  next
    case 3
    then have "fl (of_int (- m) / 2 ^ k) = of_int (- m) / 2 ^ k"
      using assms by (intro fl_exact_pos) simp_all
    then show ?thesis using fl_minus [of "of_int m / 2 ^ k"] by simp
  qed
qed

lemma fl_int: "\<bar>m\<bar> < 2 ^ 53 \<Longrightarrow> fl (of_int m) = of_int m"
  using fl_exact [of m 0] by simp

lemma fl_half: "\<bar>m\<bar> < 2 ^ 53 \<Longrightarrow> fl (of_int m / 2) = of_int m / 2"
  using fl_exact [of m 1] by simp

lemma fl_abs_le_int:
  assumes "\<bar>q\<bar> \<le> of_int N" "N < 2 ^ 53"
  shows "\<bar>fl q\<bar> \<le> of_int N"
proof -
  have N0: "(0::rat) \<le> of_int N" using assms(1) by linarith
  have Nr: "(of_int N :: rat) < 2 ^ 53"
  proof -
    have "(of_int N :: rat) < of_int (2 ^ 53)" using assms(2) by (simp only: of_int_less_iff)
    then show ?thesis by simp
  qed
  have pos: "fl r \<le> of_int N" if "0 \<le> r" "r \<le> of_int N" for r
  proof (cases "r = 0")
    case True
    then show ?thesis using N0 by (simp add: fl_def)
  next
    case False
    with that have "0 < r" "r < 2 ^ 53" using Nr by simp_all
    then show ?thesis using that(2) by (intro fl_le_int) simp_all
  qed
  show ?thesis
  proof (cases "0 \<le> q")
    case True
    then have "fl q \<le> of_int N" using assms(1) by (intro pos) simp_all
    moreover have "0 \<le> fl q" using True by (rule fl_nonneg)
    ultimately show ?thesis by simp
  next
    case False
    then have "fl (- q) \<le> of_int N" using assms(1) by (intro pos) simp_all
    moreover have "0 \<le> fl (- q)" using False by (intro fl_nonneg) simp
    ultimately show ?thesis by (simp add: fl_minus)
  qed
qed

lemma fl_between_ints:
  assumes "of_int lo \<le> q" "q \<le> of_int hi" "0 \<le> lo" "hi < 2 ^ 53"
  shows "of_int lo \<le> fl q \<and> fl q \<le> of_int hi"
proof (cases "q = 0")
  case True
  then show ?thesis using assms(1,2) by (simp add: fl_def)
next
  case False
  have "(0::rat) \<le> of_int lo" using assms(3) by simp
  with assms(1) False have pos: "0 < q" by simp
  have "(of_int hi :: rat) < of_int (2 ^ 53)" using assms(4) by (simp only: of_int_less_iff)
  then have lt: "q < 2 ^ 53" using assms(2) by simp
  show ?thesis using fl_ge_int [OF assms(1) pos lt] fl_le_int [OF assms(2) pos lt] by simp
qed

lemma fl_le_of_int:
  assumes "q \<le> of_int N" "0 \<le> N" "N < 2 ^ 53"
  shows "fl q \<le> of_int N"
proof (cases "q \<le> 0")
  case True
  then have "fl q \<le> 0" by (rule fl_nonpos)
  then show ?thesis using assms(2) by simp
next
  case False
  have "(of_int N :: rat) < of_int (2 ^ 53)" using assms(3) by (simp only: of_int_less_iff)
  then have "q < 2 ^ 53" using assms(1) by simp
  then show ?thesis using assms(1) False by (intro fl_le_int) simp_all
qed

lemma fl_upper: "0 \<le> q \<Longrightarrow> fl q \<le> q * (1 + 1 / 2 ^ 53)"
proof -
  assume q: "0 \<le> q"
  have "\<bar>fl q - q\<bar> \<le> q / 2 ^ 53" using fl_error [of q] q by simp
  then have "fl q \<le> q + q / 2 ^ 53" by linarith
  then show ?thesis by (simp add: distrib_left)
qed

lemma fl_lower: "0 \<le> q \<Longrightarrow> q * (1 - 1 / 2 ^ 53) \<le> fl q"
proof -
  assume q: "0 \<le> q"
  have "\<bar>fl q - q\<bar> \<le> q / 2 ^ 53" using fl_error [of q] q by simp
  then have "q - q / 2 ^ 53 \<le> fl q" by linarith
  then show ?thesis by (simp add: right_diff_distrib)
qed

lemma floor_fl_le:
  assumes "0 \<le> v" "v \<le> of_int M * (1 + 1 / 2 ^ 53)" "0 \<le> M" "M \<le> 2 ^ 50"
  shows "\<lfloor>fl v\<rfloor> \<le> M"
proof -
  define u :: rat where "u = 1 / 2 ^ 53"
  have u: "0 \<le> u" by (simp add: u_def)
  have Mr: "(of_int M :: rat) \<le> 2 ^ 50"
  proof -
    have "(of_int M :: rat) \<le> of_int (2 ^ 50)" using assms(4) by (simp only: of_int_le_iff)
    then show ?thesis by simp
  qed
  have "fl v \<le> v * (1 + u)" unfolding u_def using assms(1) by (rule fl_upper)
  also have "\<dots> \<le> of_int M * (1 + u) * (1 + u)"
    using assms(2) u by (intro mult_right_mono) (simp_all add: u_def)
  also have "\<dots> = of_int M + of_int M * (2 * u + u * u)" by (simp add: algebra_simps)
  also have "of_int M * (2 * u + u * u) \<le> 2 ^ 50 * (2 * u + u * u)"
    using Mr u by (intro mult_right_mono) simp_all
  also have "(2::rat) ^ 50 * (2 * u + u * u) < 1" by (simp add: u_def)
  finally have "fl v < of_int M + 1" by simp
  then show ?thesis by (simp add: floor_le_iff)
qed

lemma floor_fl_ge:
  assumes "of_int M * (1 - 1 / 2 ^ 53) \<le> v" "0 \<le> M" "M \<le> 2 ^ 50"
  shows "M - 1 \<le> \<lfloor>fl v\<rfloor>"
proof -
  define u :: rat where "u = 1 / 2 ^ 53"
  have u: "0 \<le> u" "u \<le> 1" by (simp_all add: u_def)
  have Mr: "(of_int M :: rat) \<le> 2 ^ 50"
  proof -
    have "(of_int M :: rat) \<le> of_int (2 ^ 50)" using assms(3) by (simp only: of_int_le_iff)
    then show ?thesis by simp
  qed
  have M0: "(0::rat) \<le> of_int M" using assms(2) by simp
  have v0: "0 \<le> v"
  proof -
    have "0 \<le> of_int M * (1 - u)" using M0 u by (intro mult_nonneg_nonneg) simp_all
    then show ?thesis using assms(1) by (simp add: u_def)
  qed
  have "of_int M * (2 * u) \<le> 2 ^ 50 * (2 * u)"
    using Mr u by (intro mult_right_mono) simp_all
  also have "(2::rat) ^ 50 * (2 * u) < 1" by (simp add: u_def)
  finally have small: "of_int M * (2 * u) < 1" .
  have "of_int M - 1 < of_int M - of_int M * (2 * u)" using small by simp
  also have "\<dots> \<le> of_int M * (1 - u) * (1 - u)"
  proof -
    have "0 \<le> of_int M * (u * u)" using M0 u by (intro mult_nonneg_nonneg) simp_all
    then show ?thesis by (simp add: algebra_simps)
  qed
  also have "\<dots> \<le> v * (1 - u)"
    using assms(1) u by (intro mult_right_mono) (simp_all add: u_def)
  also have "\<dots> \<le> fl v" unfolding u_def using v0 by (rule fl_lower)
  finally have "of_int (M - 1) < fl v" by simp
  then have "of_int (M - 1) \<le> fl v" by (rule less_imp_le)
  then show ?thesis by (simp only: le_floor_iff)
qed

lemma floor_half: "\<lfloor>(of_int d :: rat) / 2\<rfloor> = d div 2"
  using floor_divide_of_int_eq [of d 2, where ?'a = rat] by simp

lemma fadd_exact:
  assumes "0 \<le> n" "0 \<le> k" "n + k < 2 ^ 53"
  shows "fadd (of_int n) (of_int k) = of_int (n + k)"
  using assms fl_int [of "n + k"] by (simp add: fadd_def)

lemma fmul_exact:
  assumes "0 \<le> n" "0 \<le> k" "n * k < 2 ^ 53"
  shows "fmul (of_int n) (of_nat k) = of_int (n * int k)"
  using assms fl_int [of "n * int k"] by (simp add: fmul_def)

section \<open>The scan of the alpha channel\<close>

text \<open>
  Each of the four running bounds is, at the end, either its initial value or a coordinate
  of a foreground pixel, and bounds every foreground pixel. While the exact sums stay
  below \<open>2^53\<close> every addition and product of the loop body is exact.
\<close>

lemma fold_concat_list: "fold f (concat xss) s = fold (\<lambda>xs. fold f xs) xss s"
  by (induction xss arbitrary: s) simp_all

lemma scan_all_coords: "scan_all t iw ih a = scan_list t iw a (coords iw ih) (scan_init iw ih)"
  by (simp add: scan_all_def scan_list_def coords_def fold_concat_list fold_map comp_def)

lemma set_coords: "set (coords iw ih) = {p. fst p < iw \<and> snd p < ih}"
  by (auto simp: coords_def)

lemma length_coords: "length (coords iw ih) = iw * ih"
  by (simp add: coords_def length_concat comp_def sum_list_triv)

lemma scan_list_Nil: "scan_list t iw a [] s = s"
  by (simp add: scan_list_def)

lemma scan_list_Cons:
  "scan_list t iw a (p # ps) s = scan_list t iw a ps (scan_pixel t iw a (snd p) (fst p) s)"
  by (simp add: scan_list_def)

lemma scan_pixel_bg: "\<not> is_fg t iw a p \<Longrightarrow> scan_pixel t iw a (snd p) (fst p) s = s"
  by (simp add: scan_pixel_def is_fg_def split: option.splits)

lemma scan_pixel_fg:
  assumes "is_fg t iw a p"
  shows "x0 (scan_pixel t iw a (snd p) (fst p) s) = min (x0 s) (int (fst p))"
    and "y0 (scan_pixel t iw a (snd p) (fst p) s) = min (y0 s) (int (snd p))"
    and "x1 (scan_pixel t iw a (snd p) (fst p) s) = max (x1 s) (int (fst p))"
    and "y1 (scan_pixel t iw a (snd p) (fst p) s) = max (y1 s) (int (snd p))"
    and "sumA (scan_pixel t iw a (snd p) (fst p) s) = fadd (sumA s) (of_int (weight t iw a p))"
    and "sumX (scan_pixel t iw a (snd p) (fst p) s)
           = fadd (sumX s) (fmul (of_int (weight t iw a p)) (of_nat (fst p)))"
    and "sumY (scan_pixel t iw a (snd p) (fst p) s)
           = fadd (sumY s) (fmul (of_int (weight t iw a p)) (of_nat (snd p)))"
  using assms by (auto simp: scan_pixel_def is_fg_def weight_def split: option.splits)

lemma scan_list_x0:
  "x0 (scan_list t iw a ps s) \<le> x0 s
   \<and> (\<forall>p\<in>set ps. is_fg t iw a p \<longrightarrow> x0 (scan_list t iw a ps s) \<le> int (fst p))
   \<and> (x0 (scan_list t iw a ps s) = x0 s
      \<or> (\<exists>p\<in>set ps. is_fg t iw a p \<and> x0 (scan_list t iw a ps s) = int (fst p)))"
proof (induction ps arbitrary: s)
  case Nil
  show ?case by (simp add: scan_list_Nil)
next
  case (Cons p ps)
  let ?s = "scan_pixel t iw a (snd p) (fst p) s"
  note IH = Cons.IH [of ?s]
  show ?case
  proof (cases "is_fg t iw a p")
    case True
    have "x0 ?s = min (x0 s) (int (fst p))" by (rule scan_pixel_fg(1) [OF True])
    with IH True show ?thesis
      unfolding scan_list_Cons by (auto simp: min_def split: if_splits)
  next
    case False
    then have "?s = s" by (rule scan_pixel_bg)
    with IH False show ?thesis unfolding scan_list_Cons by auto
  qed
qed

lemma scan_list_y0:
  "y0 (scan_list t iw a ps s) \<le> y0 s
   \<and> (\<forall>p\<in>set ps. is_fg t iw a p \<longrightarrow> y0 (scan_list t iw a ps s) \<le> int (snd p))
   \<and> (y0 (scan_list t iw a ps s) = y0 s
      \<or> (\<exists>p\<in>set ps. is_fg t iw a p \<and> y0 (scan_list t iw a ps s) = int (snd p)))"
proof (induction ps arbitrary: s)
  case Nil
  show ?case by (simp add: scan_list_Nil)
next
  case (Cons p ps)
  let ?s = "scan_pixel t iw a (snd p) (fst p) s"
  note IH = Cons.IH [of ?s]
  show ?case
  proof (cases "is_fg t iw a p")
    case True
    have "y0 ?s = min (y0 s) (int (snd p))" by (rule scan_pixel_fg(2) [OF True])
    with IH True show ?thesis
      unfolding scan_list_Cons by (auto simp: min_def split: if_splits)
  next
    case False
    then have "?s = s" by (rule scan_pixel_bg)
    with IH False show ?thesis unfolding scan_list_Cons by auto
  qed
qed

lemma scan_list_x1:
  "x1 s \<le> x1 (scan_list t iw a ps s)
   \<and> (\<forall>p\<in>set ps. is_fg t iw a p \<longrightarrow> int (fst p) \<le> x1 (scan_list t iw a ps s))
   \<and> (x1 (scan_list t iw a ps s) = x1 s
      \<or> (\<exists>p\<in>set ps. is_fg t iw a p \<and> x1 (scan_list t iw a ps s) = int (fst p)))"
proof (induction ps arbitrary: s)
  case Nil
  show ?case by (simp add: scan_list_Nil)
next
  case (Cons p ps)
  let ?s = "scan_pixel t iw a (snd p) (fst p) s"
  note IH = Cons.IH [of ?s]
  show ?case
  proof (cases "is_fg t iw a p")
    case True
    have "x1 ?s = max (x1 s) (int (fst p))" by (rule scan_pixel_fg(3) [OF True])
    with IH True show ?thesis
      unfolding scan_list_Cons by (auto simp: max_def split: if_splits)
  next
    case False
    then have "?s = s" by (rule scan_pixel_bg)
    with IH False show ?thesis unfolding scan_list_Cons by auto
  qed
qed

lemma scan_list_y1:
  "y1 s \<le> y1 (scan_list t iw a ps s)
   \<and> (\<forall>p\<in>set ps. is_fg t iw a p \<longrightarrow> int (snd p) \<le> y1 (scan_list t iw a ps s))
   \<and> (y1 (scan_list t iw a ps s) = y1 s
      \<or> (\<exists>p\<in>set ps. is_fg t iw a p \<and> y1 (scan_list t iw a ps s) = int (snd p)))"
proof (induction ps arbitrary: s)
  case Nil
  show ?case by (simp add: scan_list_Nil)
next
  case (Cons p ps)
  let ?s = "scan_pixel t iw a (snd p) (fst p) s"
  note IH = Cons.IH [of ?s]
  show ?case
  proof (cases "is_fg t iw a p")
    case True
    have "y1 ?s = max (y1 s) (int (snd p))" by (rule scan_pixel_fg(4) [OF True])
    with IH True show ?thesis
      unfolding scan_list_Cons by (auto simp: max_def split: if_splits)
  next
    case False
    then have "?s = s" by (rule scan_pixel_bg)
    with IH False show ?thesis unfolding scan_list_Cons by auto
  qed
qed

lemma scan_init_simps:
  "x0 (scan_init iw ih) = int iw" "y0 (scan_init iw ih) = int ih"
  "x1 (scan_init iw ih) = - 1" "y1 (scan_init iw ih) = - 1"
  "sumA (scan_init iw ih) = 0" "sumX (scan_init iw ih) = 0" "sumY (scan_init iw ih) = 0"
  by (simp_all add: scan_init_def)

lemma weight_bounds: "0 \<le> weight t iw a p" "weight t iw a p \<le> 255"
proof -
  have "uint al \<le> 255" for al :: byte
    using uint_bounded [of al] by simp
  then show "0 \<le> weight t iw a p" "weight t iw a p \<le> 255"
    by (auto simp: weight_def split: option.splits)
qed

lemma weight_bg: "\<not> is_fg t iw a p \<Longrightarrow> weight t iw a p = 0"
  by (simp add: weight_def is_fg_def split: option.splits)

lemma weight_fg: "is_fg t iw a p \<Longrightarrow> t < weight t iw a p"
  by (simp add: weight_def is_fg_def split: option.splits)

lemma total_alpha_simps:
  "total_alpha t iw a [] = 0"
  "total_alpha t iw a (p # ps) = weight t iw a p + total_alpha t iw a ps"
  by (simp_all add: total_alpha_def)

lemma moment_x_simps:
  "moment_x t iw a [] = 0"
  "moment_x t iw a (p # ps) = weight t iw a p * int (fst p) + moment_x t iw a ps"
  by (simp_all add: moment_x_def)

lemma moment_y_simps:
  "moment_y t iw a [] = 0"
  "moment_y t iw a (p # ps) = weight t iw a p * int (snd p) + moment_y t iw a ps"
  by (simp_all add: moment_y_def)

lemma total_alpha_nonneg: "0 \<le> total_alpha t iw a ps"
  by (induction ps) (simp_all add: total_alpha_simps weight_bounds)

lemma moment_x_nonneg: "0 \<le> moment_x t iw a ps"
  by (induction ps) (simp_all add: moment_x_simps weight_bounds)

lemma moment_y_nonneg: "0 \<le> moment_y t iw a ps"
  by (induction ps) (simp_all add: moment_y_simps weight_bounds)

lemma scan_list_sumA:
  assumes "sumA s = of_int n" "0 \<le> n" "n + total_alpha t iw a ps < 2 ^ 53"
  shows "sumA (scan_list t iw a ps s) = of_int (n + total_alpha t iw a ps)"
  using assms
proof (induction ps arbitrary: s n)
  case Nil
  then show ?case by (simp add: scan_list_Nil total_alpha_simps)
next
  case (Cons p ps)
  let ?s = "scan_pixel t iw a (snd p) (fst p) s"
  let ?w = "weight t iw a p"
  have rest: "0 \<le> total_alpha t iw a ps" by (rule total_alpha_nonneg)
  have w: "0 \<le> ?w" by (rule weight_bounds)
  have lt: "n + ?w + total_alpha t iw a ps < 2 ^ 53"
    using Cons.prems(3) by (simp add: total_alpha_simps)
  have "sumA ?s = of_int (n + ?w)"
  proof (cases "is_fg t iw a p")
    case True
    have "sumA ?s = fadd (of_int n) (of_int ?w)"
      by (simp add: scan_pixel_fg(5) [OF True] Cons.prems(1))
    also have "\<dots> = of_int (n + ?w)"
      using Cons.prems(2) w lt rest by (intro fadd_exact) simp_all
    finally show ?thesis .
  next
    case False
    then show ?thesis by (simp add: scan_pixel_bg weight_bg Cons.prems(1))
  qed
  then have "sumA (scan_list t iw a ps ?s) = of_int (n + ?w + total_alpha t iw a ps)"
    using Cons.prems(2) w lt by (intro Cons.IH) simp_all
  then show ?case by (simp add: scan_list_Cons total_alpha_simps add.assoc)
qed

lemma scan_list_sumX:
  assumes "sumX s = of_int n" "0 \<le> n" "n + moment_x t iw a ps < 2 ^ 53"
  shows "sumX (scan_list t iw a ps s) = of_int (n + moment_x t iw a ps)"
  using assms
proof (induction ps arbitrary: s n)
  case Nil
  then show ?case by (simp add: scan_list_Nil moment_x_simps)
next
  case (Cons p ps)
  let ?s = "scan_pixel t iw a (snd p) (fst p) s"
  let ?w = "weight t iw a p"
  let ?m = "?w * int (fst p)"
  have rest: "0 \<le> moment_x t iw a ps" by (rule moment_x_nonneg)
  have w: "0 \<le> ?w" by (rule weight_bounds)
  then have m: "0 \<le> ?m" by simp
  have lt: "n + ?m + moment_x t iw a ps < 2 ^ 53"
    using Cons.prems(3) by (simp add: moment_x_simps)
  have "sumX ?s = of_int (n + ?m)"
  proof (cases "is_fg t iw a p")
    case True
    have "fmul (of_int ?w) (of_nat (fst p)) = of_int ?m"
      using w m lt rest Cons.prems(2) by (intro fmul_exact) simp_all
    then have "sumX ?s = fadd (of_int n) (of_int ?m)"
      by (simp add: scan_pixel_fg(6) [OF True] Cons.prems(1))
    also have "\<dots> = of_int (n + ?m)"
      using Cons.prems(2) m lt rest by (intro fadd_exact) simp_all
    finally show ?thesis .
  next
    case False
    then show ?thesis by (simp add: scan_pixel_bg weight_bg Cons.prems(1))
  qed
  then have "sumX (scan_list t iw a ps ?s) = of_int (n + ?m + moment_x t iw a ps)"
    using Cons.prems(2) m lt by (intro Cons.IH) simp_all
  then show ?case by (simp add: scan_list_Cons moment_x_simps add.assoc)
qed

lemma scan_list_sumY:
  assumes "sumY s = of_int n" "0 \<le> n" "n + moment_y t iw a ps < 2 ^ 53"
  shows "sumY (scan_list t iw a ps s) = of_int (n + moment_y t iw a ps)"
  using assms
proof (induction ps arbitrary: s n)
  case Nil
  then show ?case by (simp add: scan_list_Nil moment_y_simps)
next
  case (Cons p ps)
  let ?s = "scan_pixel t iw a (snd p) (fst p) s"
  let ?w = "weight t iw a p"
  let ?m = "?w * int (snd p)"
  have rest: "0 \<le> moment_y t iw a ps" by (rule moment_y_nonneg)
  have w: "0 \<le> ?w" by (rule weight_bounds)
  then have m: "0 \<le> ?m" by simp
  have lt: "n + ?m + moment_y t iw a ps < 2 ^ 53"
    using Cons.prems(3) by (simp add: moment_y_simps)
  have "sumY ?s = of_int (n + ?m)"
  proof (cases "is_fg t iw a p")
    case True
    have "fmul (of_int ?w) (of_nat (snd p)) = of_int ?m"
      using w m lt rest Cons.prems(2) by (intro fmul_exact) simp_all
    then have "sumY ?s = fadd (of_int n) (of_int ?m)"
      by (simp add: scan_pixel_fg(7) [OF True] Cons.prems(1))
    also have "\<dots> = of_int (n + ?m)"
      using Cons.prems(2) m lt rest by (intro fadd_exact) simp_all
    finally show ?thesis .
  next
    case False
    then show ?thesis by (simp add: scan_pixel_bg weight_bg Cons.prems(1))
  qed
  then have "sumY (scan_list t iw a ps ?s) = of_int (n + ?m + moment_y t iw a ps)"
    using Cons.prems(2) m lt by (intro Cons.IH) simp_all
  then show ?case by (simp add: scan_list_Cons moment_y_simps add.assoc)
qed

lemma total_alpha_le: "total_alpha t iw a ps \<le> 255 * int (length ps)"
proof (induction ps)
  case Nil
  show ?case by (simp add: total_alpha_simps)
next
  case (Cons p ps)
  then show ?case using weight_bounds(2) [of t iw a p] by (simp add: total_alpha_simps)
qed

lemma moment_x_le:
  assumes "\<forall>p\<in>set ps. fst p < b"
  shows "moment_x t iw a ps \<le> 255 * int b * int (length ps)"
  using assms
proof (induction ps)
  case Nil
  show ?case by (simp add: moment_x_simps)
next
  case (Cons p ps)
  have "weight t iw a p * int (fst p) \<le> 255 * int b"
    using weight_bounds [of t iw a p] Cons.prems by (intro mult_mono) simp_all
  moreover have "moment_x t iw a ps \<le> 255 * int b * int (length ps)"
    using Cons by simp
  ultimately show ?case by (simp add: moment_x_simps algebra_simps)
qed

lemma moment_y_le:
  assumes "\<forall>p\<in>set ps. snd p < b"
  shows "moment_y t iw a ps \<le> 255 * int b * int (length ps)"
  using assms
proof (induction ps)
  case Nil
  show ?case by (simp add: moment_y_simps)
next
  case (Cons p ps)
  have "weight t iw a p * int (snd p) \<le> 255 * int b"
    using weight_bounds [of t iw a p] Cons.prems by (intro mult_mono) simp_all
  moreover have "moment_y t iw a ps \<le> 255 * int b * int (length ps)"
    using Cons by simp
  ultimately show ?case by (simp add: moment_y_simps algebra_simps)
qed

lemma moment_x_between:
  assumes "\<forall>p\<in>set ps. is_fg t iw a p \<longrightarrow> lo \<le> int (fst p) \<and> int (fst p) \<le> hi"
  shows "lo * total_alpha t iw a ps \<le> moment_x t iw a ps
         \<and> moment_x t iw a ps \<le> hi * total_alpha t iw a ps"
  using assms
proof (induction ps)
  case Nil
  show ?case by (simp add: total_alpha_simps moment_x_simps)
next
  case (Cons p ps)
  have w: "0 \<le> weight t iw a p" by (rule weight_bounds)
  have one: "lo * weight t iw a p \<le> weight t iw a p * int (fst p)
             \<and> weight t iw a p * int (fst p) \<le> hi * weight t iw a p"
  proof (cases "is_fg t iw a p")
    case True
    then have "lo \<le> int (fst p)" "int (fst p) \<le> hi" using Cons.prems by simp_all
    then show ?thesis using w by (simp add: mult_right_mono mult.commute [of "weight t iw a p"])
  next
    case False
    then show ?thesis by (simp add: weight_bg)
  qed
  have "lo * total_alpha t iw a ps \<le> moment_x t iw a ps
        \<and> moment_x t iw a ps \<le> hi * total_alpha t iw a ps"
    using Cons by simp
  then show ?case using one by (simp add: total_alpha_simps moment_x_simps algebra_simps)
qed

lemma moment_y_between:
  assumes "\<forall>p\<in>set ps. is_fg t iw a p \<longrightarrow> lo \<le> int (snd p) \<and> int (snd p) \<le> hi"
  shows "lo * total_alpha t iw a ps \<le> moment_y t iw a ps
         \<and> moment_y t iw a ps \<le> hi * total_alpha t iw a ps"
  using assms
proof (induction ps)
  case Nil
  show ?case by (simp add: total_alpha_simps moment_y_simps)
next
  case (Cons p ps)
  have w: "0 \<le> weight t iw a p" by (rule weight_bounds)
  have one: "lo * weight t iw a p \<le> weight t iw a p * int (snd p)
             \<and> weight t iw a p * int (snd p) \<le> hi * weight t iw a p"
  proof (cases "is_fg t iw a p")
    case True
    then have "lo \<le> int (snd p)" "int (snd p) \<le> hi" using Cons.prems by simp_all
    then show ?thesis using w by (simp add: mult_right_mono mult.commute [of "weight t iw a p"])
  next
    case False
    then show ?thesis by (simp add: weight_bg)
  qed
  have "lo * total_alpha t iw a ps \<le> moment_y t iw a ps
        \<and> moment_y t iw a ps \<le> hi * total_alpha t iw a ps"
    using Cons by simp
  then show ?case using one by (simp add: total_alpha_simps moment_y_simps algebra_simps)
qed

lemma total_alpha_pos:
  assumes "p \<in> set ps" "is_fg t iw a p" "0 \<le> t"
  shows "0 < total_alpha t iw a ps"
  using assms(1)
proof (induction ps)
  case Nil
  then show ?case by simp
next
  case (Cons q ps)
  show ?case
  proof (cases "p = q")
    case True
    then have "0 < weight t iw a q" using weight_fg [OF assms(2)] assms(3) by simp
    then show ?thesis using total_alpha_nonneg [of t iw a ps] by (simp add: total_alpha_simps)
  next
    case False
    then have "0 < total_alpha t iw a ps" using Cons by simp
    then show ?thesis using weight_bounds(1) [of t iw a q] by (simp add: total_alpha_simps)
  qed
qed

lemma scan_all_sums:
  fixes cfg img
  defines "t \<equiv> ALPHA_THRESH cfg" and "a \<equiv> extractChannel_alpha_raw img"
    and "ps \<equiv> coords (width img) (height img)"
  defines "s \<equiv> scan_all t (width img) (height img) a"
  assumes "255 * (width img * height img) * max (width img) (height img) < 2 ^ 53"
  shows "sumA s = of_int (total_alpha t (width img) a ps)"
    and "sumX s = of_int (moment_x t (width img) a ps)"
    and "sumY s = of_int (moment_y t (width img) a ps)"
proof -
  let ?i = "scan_init (width img) (height img)"
  let ?n = "width img * height img"
  have s: "s = scan_list t (width img) a ps ?i"
    by (simp add: s_def ps_def scan_all_coords)
  have len: "length ps = ?n" by (simp add: ps_def length_coords)
  let ?m = "max (width img) (height img)"
  have cast: "int k < 2 ^ 53" if "k \<le> 255 * ?n * ?m" for k
  proof -
    from that assms(5) have "k < 2 ^ 53" by (rule le_less_trans)
    then show ?thesis by (metis of_nat_less_numeral_power_cancel_iff)
  qed
  have "255 * ?n \<le> 255 * ?n * ?m" by (auto simp: max_def)
  then have "int (255 * ?n) < 2 ^ 53" by (rule cast)
  moreover have "total_alpha t (width img) a ps \<le> int (255 * ?n)"
    using total_alpha_le [of t "width img" a ps] by (simp add: len)
  ultimately have A: "total_alpha t (width img) a ps < 2 ^ 53" by linarith
  have "255 * width img * ?n = 255 * ?n * width img" by simp
  also have "\<dots> \<le> 255 * ?n * ?m" by (intro mult_le_mono2) simp
  finally have "int (255 * width img * ?n) < 2 ^ 53" by (rule cast)
  moreover have "moment_x t (width img) a ps \<le> 255 * int (width img) * int (length ps)"
    by (rule moment_x_le) (simp add: ps_def set_coords)
  then have "moment_x t (width img) a ps \<le> int (255 * width img * ?n)" by (simp add: len)
  ultimately have X: "moment_x t (width img) a ps < 2 ^ 53" by linarith
  have "255 * height img * ?n = 255 * ?n * height img" by simp
  also have "\<dots> \<le> 255 * ?n * ?m" by (intro mult_le_mono2) simp
  finally have "int (255 * height img * ?n) < 2 ^ 53" by (rule cast)
  moreover have "moment_y t (width img) a ps \<le> 255 * int (height img) * int (length ps)"
    by (rule moment_y_le) (simp add: ps_def set_coords)
  then have "moment_y t (width img) a ps \<le> int (255 * height img * ?n)" by (simp add: len)
  ultimately have Y: "moment_y t (width img) a ps < 2 ^ 53" by linarith
  show "sumA s = of_int (total_alpha t (width img) a ps)"
    using scan_list_sumA [of ?i 0 t "width img" a ps] A by (simp add: s scan_init_simps)
  show "sumX s = of_int (moment_x t (width img) a ps)"
    using scan_list_sumX [of ?i 0 t "width img" a ps] X by (simp add: s scan_init_simps)
  show "sumY s = of_int (moment_y t (width img) a ps)"
    using scan_list_sumY [of ?i 0 t "width img" a ps] Y by (simp add: s scan_init_simps)
qed

lemma dims_small:
  assumes "255 * (width img * height img) * max (width img) (height img) < 2 ^ 53"
    and "0 < width img" "0 < height img"
  shows "int (width img) < 2 ^ 53" and "int (height img) < 2 ^ 53"
proof -
  let ?n = "width img * height img" and ?m = "max (width img) (height img)"
  have n: "1 \<le> 255 * ?n" using assms(2,3) by simp
  have "?m = 1 * ?m" by simp
  also have "\<dots> \<le> 255 * ?n * ?m" using n by (intro mult_le_mono1)
  finally have "?m < 2 ^ 53" using assms(1) by (rule le_less_trans)
  then have "width img < 2 ^ 53" "height img < 2 ^ 53" by simp_all
  then show "int (width img) < 2 ^ 53" and "int (height img) < 2 ^ 53"
    by (metis of_nat_less_numeral_power_cancel_iff)+
qed

section \<open>The bounding box\<close>

lemma foreground_iff:
  "foreground cfg img x y \<longleftrightarrow>
     (x, y) \<in> set (coords (width img) (height img))
     \<and> is_fg (ALPHA_THRESH cfg) (width img) (extractChannel_alpha_raw img) (x, y)"
  by (auto simp: foreground_def set_coords is_fg_def split: option.splits)

lemma scan_all_box:
  assumes "foreground cfg img px py"
  defines "s \<equiv> scan_all (ALPHA_THRESH cfg) (width img) (height img) (extractChannel_alpha_raw img)"
  shows "0 \<le> x0 s \<and> x0 s \<le> x1 s \<and> x1 s < int (width img)
         \<and> 0 \<le> y0 s \<and> y0 s \<le> y1 s \<and> y1 s < int (height img)"
    and "foreground cfg img x y \<Longrightarrow>
           x0 s \<le> int x \<and> int x \<le> x1 s \<and> y0 s \<le> int y \<and> int y \<le> y1 s"
    and "\<exists>y. foreground cfg img (nat (x0 s)) y" and "\<exists>y. foreground cfg img (nat (x1 s)) y"
    and "\<exists>x. foreground cfg img x (nat (y0 s))" and "\<exists>x. foreground cfg img x (nat (y1 s))"
proof -
  let ?t = "ALPHA_THRESH cfg" and ?a = "extractChannel_alpha_raw img"
  let ?ps = "coords (width img) (height img)"
  let ?i = "scan_init (width img) (height img)"
  have s: "s = scan_list ?t (width img) ?a ?ps ?i"
    by (simp add: s_def scan_all_coords)
  have p: "(px, py) \<in> set ?ps" "is_fg ?t (width img) ?a (px, py)"
    using assms(1) by (simp_all add: foreground_iff)
  have inb: "px < width img" "py < height img" using p(1) by (simp_all add: set_coords)
  note X0 = scan_list_x0 [where t = ?t and iw = "width img" and a = ?a and ps = ?ps and s = ?i,
      folded s, unfolded scan_init_simps]
  note Y0 = scan_list_y0 [where t = ?t and iw = "width img" and a = ?a and ps = ?ps and s = ?i,
      folded s, unfolded scan_init_simps]
  note X1 = scan_list_x1 [where t = ?t and iw = "width img" and a = ?a and ps = ?ps and s = ?i,
      folded s, unfolded scan_init_simps]
  note Y1 = scan_list_y1 [where t = ?t and iw = "width img" and a = ?a and ps = ?ps and s = ?i,
      folded s, unfolded scan_init_simps]
  have X0a: "x0 s \<le> int (fst q)" if "q \<in> set ?ps" "is_fg ?t (width img) ?a q" for q
    using X0 that by blast
  have Y0a: "y0 s \<le> int (snd q)" if "q \<in> set ?ps" "is_fg ?t (width img) ?a q" for q
    using Y0 that by blast
  have X1a: "int (fst q) \<le> x1 s" if "q \<in> set ?ps" "is_fg ?t (width img) ?a q" for q
    using X1 that by blast
  have Y1a: "int (snd q) \<le> y1 s" if "q \<in> set ?ps" "is_fg ?t (width img) ?a q" for q
    using Y1 that by blast
  have x0p: "x0 s \<le> int px" using X0a [OF p] by simp
  have y0p: "y0 s \<le> int py" using Y0a [OF p] by simp
  have x1p: "int px \<le> x1 s" using X1a [OF p] by simp
  have y1p: "int py \<le> y1 s" using Y1a [OF p] by simp
  have "x0 s \<noteq> int (width img)" using x0p inb by simp
  then obtain q0 where q0: "q0 \<in> set ?ps" "is_fg ?t (width img) ?a q0" "x0 s = int (fst q0)"
    using X0 by blast
  have "y0 s \<noteq> int (height img)" using y0p inb by simp
  then obtain r0 where r0: "r0 \<in> set ?ps" "is_fg ?t (width img) ?a r0" "y0 s = int (snd r0)"
    using Y0 by blast
  have "x1 s \<noteq> - 1" using x1p by simp
  then obtain q1 where q1: "q1 \<in> set ?ps" "is_fg ?t (width img) ?a q1" "x1 s = int (fst q1)"
    using X1 by blast
  have "y1 s \<noteq> - 1" using y1p by simp
  then obtain r1 where r1: "r1 \<in> set ?ps" "is_fg ?t (width img) ?a r1" "y1 s = int (snd r1)"
    using Y1 by blast
  have "fst q1 < width img" "snd r1 < height img"
    using q1(1) r1(1) by (simp_all add: set_coords)
  then show "0 \<le> x0 s \<and> x0 s \<le> x1 s \<and> x1 s < int (width img)
         \<and> 0 \<le> y0 s \<and> y0 s \<le> y1 s \<and> y1 s < int (height img)"
    using q0(3) r0(3) q1(3) r1(3) x0p x1p y0p y1p by simp
  show "x0 s \<le> int x \<and> int x \<le> x1 s \<and> y0 s \<le> int y \<and> int y \<le> y1 s"
    if "foreground cfg img x y"
  proof -
    from that have m: "(x, y) \<in> set ?ps" "is_fg ?t (width img) ?a (x, y)"
      by (simp_all add: foreground_iff)
    show ?thesis using X0a [OF m] Y0a [OF m] X1a [OF m] Y1a [OF m] by simp
  qed
  show "\<exists>y. foreground cfg img (nat (x0 s)) y"
    using q0 by (intro exI [of _ "snd q0"]) (simp add: foreground_iff)
  show "\<exists>y. foreground cfg img (nat (x1 s)) y"
    using q1 by (intro exI [of _ "snd q1"]) (simp add: foreground_iff)
  show "\<exists>x. foreground cfg img x (nat (y0 s))"
    using r0 by (intro exI [of _ "fst r0"]) (simp add: foreground_iff)
  show "\<exists>x. foreground cfg img x (nat (y1 s))"
    using r1 by (intro exI [of _ "fst r1"]) (simp add: foreground_iff)
qed

text \<open>
  Claim C1. When some pixel of the buffer has an alpha above the threshold,
  \<open>findAlphaBBoxAndCentroid\<close> returns a box \<open>(b0, b1, b2, b3)\<close>, half-open on
  the high side, that lies inside the image, is not empty, contains every foreground pixel,
  and whose first and last column and row each hold a foreground pixel: it is the
  smallest such box.
\<close>

theorem bbox_minimal:
  assumes "foreground cfg img px py"
  shows "\<exists>r b0 b1 b2 b3.
           findAlphaBBoxAndCentroid cfg img = Some r \<and> bbox r = (b0, b1, b2, b3)
           \<and> 0 \<le> b0 \<and> b0 < b2 \<and> b2 \<le> int (width img)
           \<and> 0 \<le> b1 \<and> b1 < b3 \<and> b3 \<le> int (height img)
           \<and> (\<forall>x y. foreground cfg img x y \<longrightarrow>
                  b0 \<le> int x \<and> int x < b2 \<and> b1 \<le> int y \<and> int y < b3)
           \<and> (\<exists>y. foreground cfg img (nat b0) y) \<and> (\<exists>y. foreground cfg img (nat (b2 - 1)) y)
           \<and> (\<exists>x. foreground cfg img x (nat b1)) \<and> (\<exists>x. foreground cfg img x (nat (b3 - 1)))"
proof -
  define s where
    "s = scan_all (ALPHA_THRESH cfg) (width img) (height img) (extractChannel_alpha_raw img)"
  note B = scan_all_box [OF assms, folded s_def]
  have r: "findAlphaBBoxAndCentroid cfg img =
             Some \<lparr>bbox = (x0 s, y0 s, x1 s + 1, y1 s + 1),
                   cx = centroid_div (sumX s) (sumA s), cy = centroid_div (sumY s) (sumA s),
                   res_w = width img, res_h = height img\<rparr>"
    using B(1) by (simp add: findAlphaBBoxAndCentroid_def Let_def s_def [symmetric])
  have all: "\<forall>x y. foreground cfg img x y \<longrightarrow>
                  x0 s \<le> int x \<and> int x < x1 s + 1 \<and> y0 s \<le> int y \<and> int y < y1 s + 1"
    using B(2) by fastforce
  show ?thesis
    apply (rule exI [of _ "\<lparr>bbox = (x0 s, y0 s, x1 s + 1, y1 s + 1),
                   cx = centroid_div (sumX s) (sumA s), cy = centroid_div (sumY s) (sumA s),
                   res_w = width img, res_h = height img\<rparr>"])
    apply (rule exI [of _ "x0 s"], rule exI [of _ "y0 s"])
    apply (rule exI [of _ "x1 s + 1"], rule exI [of _ "y1 s + 1"])
    using r B(1) all B(3) B(4) B(5) B(6) by simp
qed

theorem bbox_minimal_witness:
  "foreground default_config sample 1 0
   \<and> findAlphaBBoxAndCentroid default_config sample
       = Some \<lparr>bbox = (1, 0, 3, 2), cx = Some (fl (727 / 472)), cy = Some (fl (200 / 472)),
               res_w = 3, res_h = 2\<rparr>
   \<and> (\<exists>r b0 b1 b2 b3.
           findAlphaBBoxAndCentroid default_config sample = Some r \<and> bbox r = (b0, b1, b2, b3)
           \<and> 0 \<le> b0 \<and> b0 < b2 \<and> b2 \<le> int (width sample)
           \<and> 0 \<le> b1 \<and> b1 < b3 \<and> b3 \<le> int (height sample)
           \<and> (\<forall>x y. foreground default_config sample x y \<longrightarrow>
                  b0 \<le> int x \<and> int x < b2 \<and> b1 \<le> int y \<and> int y < b3)
           \<and> (\<exists>y. foreground default_config sample (nat b0) y)
           \<and> (\<exists>y. foreground default_config sample (nat (b2 - 1)) y)
           \<and> (\<exists>x. foreground default_config sample x (nat b1))
           \<and> (\<exists>x. foreground default_config sample x (nat (b3 - 1))))"
proof -
  have h: "foreground default_config sample 1 0" by code_simp
  have v: "findAlphaBBoxAndCentroid default_config sample
       = Some \<lparr>bbox = (1, 0, 3, 2), cx = Some (fl (727 / 472)), cy = Some (fl (200 / 472)),
               res_w = 3, res_h = 2\<rparr>" by code_simp
  from h v bbox_minimal [OF h] show ?thesis by (intro conjI)
qed

section \<open>The centroid\<close>

text \<open>
  Claim C6, as the code has it. When the threshold is not negative and some pixel is
  foreground, the centroid that the analyzer returns is
  \<open>(\<Sum> alpha\<cdot>x / \<Sum> alpha, \<Sum> alpha\<cdot>y / \<Sum> alpha)\<close> over the foreground pixels, each
  quotient rounded once, and lies inside the half-open box that is returned with it:
  \<open>b0 \<le> cx < b2\<close> and \<open>b1 \<le> cy < b3\<close>. With a threshold that is not negative
  the sum of the alphas is positive; the image is small enough for the three running sums
  to stay below \<open>2^53\<close>, where the additions of the loop are exact.
\<close>

theorem centroid_in_bbox:
  assumes "foreground cfg img px py" and "0 \<le> ALPHA_THRESH cfg"
    and "255 * (width img * height img) * max (width img) (height img) < 2 ^ 53"
  shows "\<exists>r b0 b1 b2 b3 c d.
           findAlphaBBoxAndCentroid cfg img = Some r \<and> bbox r = (b0, b1, b2, b3)
           \<and> cx r = Some c \<and> cy r = Some d
           \<and> c = fl (of_int (moment_x (ALPHA_THRESH cfg) (width img) (extractChannel_alpha_raw img)
                                (coords (width img) (height img)))
                     / of_int (total_alpha (ALPHA_THRESH cfg) (width img)
                                (extractChannel_alpha_raw img) (coords (width img) (height img))))
           \<and> d = fl (of_int (moment_y (ALPHA_THRESH cfg) (width img) (extractChannel_alpha_raw img)
                                (coords (width img) (height img)))
                     / of_int (total_alpha (ALPHA_THRESH cfg) (width img)
                                (extractChannel_alpha_raw img) (coords (width img) (height img))))
           \<and> of_int b0 \<le> c \<and> c < of_int b2 \<and> of_int b1 \<le> d \<and> d < of_int b3"
proof -
  define t where "t = ALPHA_THRESH cfg"
  define a where "a = extractChannel_alpha_raw img"
  define ps where "ps = coords (width img) (height img)"
  define s where "s = scan_all t (width img) (height img) a"
  define SA where "SA = total_alpha t (width img) a ps"
  define SX where "SX = moment_x t (width img) a ps"
  define SY where "SY = moment_y t (width img) a ps"
  let ?i = "scan_init (width img) (height img)"
  have sl: "s = scan_list t (width img) a ps ?i"
    by (simp add: s_def ps_def scan_all_coords)
  note B = scan_all_box [OF assms(1), folded t_def a_def, folded s_def]
  note S = scan_all_sums [OF assms(3), of cfg, folded t_def a_def ps_def,
      folded s_def SA_def SX_def SY_def]
  have p: "(px, py) \<in> set ps" "is_fg t (width img) a (px, py)"
    using assms(1) by (simp_all add: foreground_iff ps_def t_def a_def)
  have SApos: "0 < SA" unfolding SA_def using p assms(2) by (intro total_alpha_pos) (simp_all add: t_def)
  have wpos: "0 < width img" "0 < height img" using assms(1) by (simp_all add: foreground_def)
  note D = dims_small [OF assms(3) wpos]
  have inx: "\<forall>q\<in>set ps. is_fg t (width img) a q \<longrightarrow> x0 s \<le> int (fst q) \<and> int (fst q) \<le> x1 s"
    using scan_list_x0 [where t = t and iw = "width img" and a = a and ps = ps and s = ?i]
      scan_list_x1 [where t = t and iw = "width img" and a = a and ps = ps and s = ?i]
    unfolding sl [symmetric] by blast
  have iny: "\<forall>q\<in>set ps. is_fg t (width img) a q \<longrightarrow> y0 s \<le> int (snd q) \<and> int (snd q) \<le> y1 s"
    using scan_list_y0 [where t = t and iw = "width img" and a = a and ps = ps and s = ?i]
      scan_list_y1 [where t = t and iw = "width img" and a = a and ps = ps and s = ?i]
    unfolding sl [symmetric] by blast
  note MX = moment_x_between [OF inx, folded SA_def SX_def]
  note MY = moment_y_between [OF iny, folded SA_def SY_def]
  have SAr: "(0::rat) < of_int SA" using SApos by simp
  have qx: "of_int (x0 s) \<le> (of_int SX :: rat) / of_int SA"
    "(of_int SX :: rat) / of_int SA \<le> of_int (x1 s)"
  proof -
    have "(of_int (x0 s * SA) :: rat) \<le> of_int SX" using MX by (simp only: of_int_le_iff)
    then show "of_int (x0 s) \<le> (of_int SX :: rat) / of_int SA"
      using SAr by (simp add: pos_le_divide_eq)
    have "(of_int SX :: rat) \<le> of_int (x1 s * SA)" using MX by (simp only: of_int_le_iff)
    then show "(of_int SX :: rat) / of_int SA \<le> of_int (x1 s)"
      using SAr by (simp add: pos_divide_le_eq)
  qed
  have qy: "of_int (y0 s) \<le> (of_int SY :: rat) / of_int SA"
    "(of_int SY :: rat) / of_int SA \<le> of_int (y1 s)"
  proof -
    have "(of_int (y0 s * SA) :: rat) \<le> of_int SY" using MY by (simp only: of_int_le_iff)
    then show "of_int (y0 s) \<le> (of_int SY :: rat) / of_int SA"
      using SAr by (simp add: pos_le_divide_eq)
    have "(of_int SY :: rat) \<le> of_int (y1 s * SA)" using MY by (simp only: of_int_le_iff)
    then show "(of_int SY :: rat) / of_int SA \<le> of_int (y1 s)"
      using SAr by (simp add: pos_divide_le_eq)
  qed
  have fx: "of_int (x0 s) \<le> fl (of_int SX / of_int SA) \<and> fl (of_int SX / of_int SA) \<le> of_int (x1 s)"
    using qx B(1) D(1) by (intro fl_between_ints) simp_all
  have fy: "of_int (y0 s) \<le> fl (of_int SY / of_int SA) \<and> fl (of_int SY / of_int SA) \<le> of_int (y1 s)"
    using qy B(1) D(2) by (intro fl_between_ints) simp_all
  have cxv: "centroid_div (sumX s) (sumA s) = Some (fl (of_int SX / of_int SA))"
    using SApos by (simp add: centroid_div_def S fdiv_def)
  have cyv: "centroid_div (sumY s) (sumA s) = Some (fl (of_int SY / of_int SA))"
    using SApos by (simp add: centroid_div_def S fdiv_def)
  have r: "findAlphaBBoxAndCentroid cfg img =
             Some \<lparr>bbox = (x0 s, y0 s, x1 s + 1, y1 s + 1),
                   cx = Some (fl (of_int SX / of_int SA)), cy = Some (fl (of_int SY / of_int SA)),
                   res_w = width img, res_h = height img\<rparr>"
    using B(1) unfolding findAlphaBBoxAndCentroid_def Let_def
    by (simp add: t_def [symmetric] a_def [symmetric] s_def [symmetric] cxv cyv)
  have lt: "fl (of_int SX / of_int SA) < of_int (x1 s + 1)"
    "fl (of_int SY / of_int SA) < of_int (y1 s + 1)"
    using fx fy by simp_all
  show ?thesis
    unfolding t_def [symmetric] a_def [symmetric] ps_def [symmetric]
      SA_def [symmetric] SX_def [symmetric] SY_def [symmetric]
    apply (rule exI [of _ "\<lparr>bbox = (x0 s, y0 s, x1 s + 1, y1 s + 1),
                   cx = Some (fl (of_int SX / of_int SA)), cy = Some (fl (of_int SY / of_int SA)),
                   res_w = width img, res_h = height img\<rparr>"])
    apply (rule exI [of _ "x0 s"], rule exI [of _ "y0 s"])
    apply (rule exI [of _ "x1 s + 1"], rule exI [of _ "y1 s + 1"])
    apply (rule exI [of _ "fl (of_int SX / of_int SA)"])
    apply (rule exI [of _ "fl (of_int SY / of_int SA)"])
    using r fx fy lt by simp
qed

theorem centroid_in_bbox_witness:
  "foreground default_config sample 1 0 \<and> 0 \<le> ALPHA_THRESH default_config
   \<and> 255 * (width sample * height sample) * max (width sample) (height sample) < 2 ^ 53
   \<and> (\<exists>r b0 b1 b2 b3 c d.
           findAlphaBBoxAndCentroid default_config sample = Some r \<and> bbox r = (b0, b1, b2, b3)
           \<and> cx r = Some c \<and> cy r = Some d
           \<and> c = fl (727 / 472) \<and> d = fl (200 / 472)
           \<and> of_int b0 \<le> c \<and> c < of_int b2 \<and> of_int b1 \<le> d \<and> d < of_int b3)"
proof -
  have h1: "foreground default_config sample 1 0" by code_simp
  have h2: "0 \<le> ALPHA_THRESH default_config" by (simp add: default_config_def)
  have h3: "255 * (width sample * height sample) * max (width sample) (height sample) < 2 ^ 53"
    by (simp add: sample_def)
  have mx: "moment_x (ALPHA_THRESH default_config) (width sample) (extractChannel_alpha_raw sample)
              (coords (width sample) (height sample)) = 727" by code_simp
  have my: "moment_y (ALPHA_THRESH default_config) (width sample) (extractChannel_alpha_raw sample)
              (coords (width sample) (height sample)) = 200" by code_simp
  have ta: "total_alpha (ALPHA_THRESH default_config) (width sample) (extractChannel_alpha_raw sample)
              (coords (width sample) (height sample)) = 472" by code_simp
  show ?thesis
    using centroid_in_bbox [OF h1 h2 h3] h1 h2 h3 unfolding mx my ta by simp
qed

text \<open>
  Nothing in the code keeps the threshold from being negative. With \<^verbatim>\<open>ATHRESH=-1\<close>
  the pixels of alpha 0 are foreground as well: on a fully transparent image of 4 by 2
  pixels the analyzer finds the box \<open>(0, 0, 4, 2)\<close>, the three sums are 0, and both
  coordinates of the centroid are \<open>0 / 0\<close>, NaN, which lies in no box.
\<close>

theorem centroid_nan_counterexample:
  "foreground negative_threshold (blank 4 2) 0 0
   \<and> findAlphaBBoxAndCentroid negative_threshold (blank 4 2)
       = Some \<lparr>bbox = (0, 0, 4, 2), cx = None, cy = None, res_w = 4, res_h = 2\<rparr>"
  by code_simp


section \<open>The arithmetic of toSquareWebP\<close>

text \<open>
  The geometric branch works on integers and half-integers and is exact. The resized
  dimensions go through a division, a product and a floor; the product
  \<open>w \<cdot> fl (M / w)\<close> lies within a factor \<open>1 \<plusminus> 2^-53\<close> of \<open>M\<close>.
\<close>

lemma toSquareWebP_Inr:
  assumes "toSquareWebP cfg ev crop padPct centroid = Inr f"
  shows "1 \<le> SIZE cfg" "SIZE cfg \<le> 16383"
    and "nw cfg padPct (width crop) (height crop) \<le> SIZE cfg"
    and "nh cfg padPct (width crop) (height crop) \<le> SIZE cfg"
    and "placement cfg padPct (width crop) (height crop) centroid = Some (off_left f, off_top f)"
    and "resized_width f = nw cfg padPct (width crop) (height crop)"
    and "resized_height f = nh cfg padPct (width crop) (height crop)"
    and "canvas_width f = SIZE cfg" "canvas_height f = SIZE cfg"
    and "encoding f = webp_options_of ev" "webp_valid (webp_options_of ev)"
  using assms
  by (auto simp: toSquareWebP_def Let_def split: if_splits option.splits prod.splits)

lemma nw_ge_1: "1 \<le> nw cfg padPct mw mh" and nh_ge_1: "1 \<le> nh cfg padPct mw mh"
  by (simp_all add: nw_def nh_def)

lemma by_px_bound:
  assumes "\<bar>V_BIAS_PCT cfg\<bar> \<le> 1" "0 \<le> SIZE cfg" "SIZE cfg \<le> 16383"
  shows "\<bar>by_px cfg\<bar> \<le> 16384"
proof -
  have "\<bar>V_BIAS_PCT cfg * of_int (SIZE cfg)\<bar> = \<bar>V_BIAS_PCT cfg\<bar> * of_int (SIZE cfg)"
    using assms(2) by (simp add: abs_mult)
  also have "\<dots> \<le> 1 * of_int (SIZE cfg)"
    using assms(1,2) by (intro mult_right_mono) simp_all
  also have "\<dots> \<le> of_int 16383" using assms(3) by simp
  finally have "\<bar>fl (V_BIAS_PCT cfg * of_int (SIZE cfg))\<bar> \<le> of_int 16383"
    by (rule fl_abs_le_int) simp
  then have "- 16383 \<le> fl (V_BIAS_PCT cfg * of_int (SIZE cfg))"
    and "fl (V_BIAS_PCT cfg * of_int (SIZE cfg)) \<le> 16383" by (simp_all add: abs_le_iff)
  then have "- 16384 \<le> \<lfloor>fl (V_BIAS_PCT cfg * of_int (SIZE cfg)) + 1 / 2\<rfloor>"
    and "\<lfloor>fl (V_BIAS_PCT cfg * of_int (SIZE cfg)) + 1 / 2\<rfloor> \<le> 16384"
    by (simp_all add: le_floor_iff floor_le_iff)
  then show ?thesis unfolding by_px_def Math_round_def fmul_def by linarith
qed

lemma geometric_left:
  assumes "0 \<le> d" "d < 2 ^ 52"
  shows "max 0 (Math_floor (fdiv (fsub (of_int s) (of_int (s - d))) 2)) = d div 2"
proof -
  have "fsub (of_int s) (of_int (s - d)) = fl (of_int d)" by (simp add: fsub_def)
  also have "\<dots> = of_int d" using assms by (intro fl_int) simp
  finally have "fdiv (fsub (of_int s) (of_int (s - d))) 2 = fl (of_int d / 2)"
    by (simp add: fdiv_def)
  also have "\<dots> = of_int d / 2" using assms by (intro fl_half) simp
  finally have e: "fdiv (fsub (of_int s) (of_int (s - d))) 2 = of_int d / 2" .
  show ?thesis unfolding e Math_floor_def floor_half using assms(1) by simp
qed

lemma geometric_top:
  assumes "0 \<le> d" "d < 2 ^ 50" "\<bar>b\<bar> < 2 ^ 50"
  shows "max 0 (Math_floor (fadd (fdiv (fsub (of_int s) (of_int (s - d))) 2) (of_int b)))
           = max 0 (d div 2 + b)"
proof -
  have "fsub (of_int s) (of_int (s - d)) = fl (of_int d)" by (simp add: fsub_def)
  also have "\<dots> = of_int d" using assms by (intro fl_int) simp
  finally have "fdiv (fsub (of_int s) (of_int (s - d))) 2 = fl (of_int d / 2)"
    by (simp add: fdiv_def)
  also have "\<dots> = of_int d / 2" using assms by (intro fl_half) simp
  finally have e: "fdiv (fsub (of_int s) (of_int (s - d))) 2 = of_int d / 2" .
  have "fadd (fdiv (fsub (of_int s) (of_int (s - d))) 2) (of_int b)
                  = fl (of_int d / 2 + of_int b)" by (simp only: fadd_def e)
  also have "of_int d / 2 + of_int b = (of_int (d + 2 * b) :: rat) / 2" by simp
  also have "fl \<dots> = of_int (d + 2 * b) / 2" using assms by (intro fl_half) simp
  finally have e2: "fadd (fdiv (fsub (of_int s) (of_int (s - d))) 2) (of_int b)
                      = of_int (d + 2 * b) / 2" .
  show ?thesis unfolding e2 Math_floor_def floor_half by simp
qed

lemma geometric_centering:
  assumes "toSquareWebP cfg ev crop padPct None = Inr f" "\<bar>V_BIAS_PCT cfg\<bar> \<le> 1"
  shows "off_left f = (SIZE cfg - resized_width f) div 2"
    and "off_top f = max 0 ((SIZE cfg - resized_height f) div 2 + by_px cfg)"
proof -
  note F = toSquareWebP_Inr [OF assms(1)]
  let ?nw = "nw cfg padPct (width crop) (height crop)"
  let ?nh = "nh cfg padPct (width crop) (height crop)"
  have b: "\<bar>by_px cfg\<bar> \<le> 16384" using assms(2) F(1,2) by (intro by_px_bound) simp_all
  have dw: "0 \<le> SIZE cfg - ?nw" "SIZE cfg - ?nw < 2 ^ 50"
    using F(2,3) nw_ge_1 [of cfg padPct "width crop" "height crop"] by simp_all
  have dh: "0 \<le> SIZE cfg - ?nh" "SIZE cfg - ?nh < 2 ^ 50"
    using F(2,4) nh_ge_1 [of cfg padPct "width crop" "height crop"] by simp_all
  have l: "max 0 (Math_floor (fdiv (fsub (of_int (SIZE cfg)) (of_int ?nw)) 2))
             = (SIZE cfg - ?nw) div 2"
    using geometric_left [of "SIZE cfg - ?nw" "SIZE cfg"] dw by simp
  have t: "max 0 (Math_floor (fadd (fdiv (fsub (of_int (SIZE cfg)) (of_int ?nh)) 2)
                                   (of_int (by_px cfg))))
             = max 0 ((SIZE cfg - ?nh) div 2 + by_px cfg)"
    using geometric_top [of "SIZE cfg - ?nh" "by_px cfg" "SIZE cfg"] dh b by simp
  have "placement cfg padPct (width crop) (height crop) None
          = Some ((SIZE cfg - ?nw) div 2, max 0 ((SIZE cfg - ?nh) div 2 + by_px cfg))"
    unfolding placement_def option.case l t ..
  with F(5) have "off_left f = (SIZE cfg - ?nw) div 2"
    and "off_top f = max 0 ((SIZE cfg - ?nh) div 2 + by_px cfg)" by simp_all
  then show "off_left f = (SIZE cfg - resized_width f) div 2"
    and "off_top f = max 0 ((SIZE cfg - resized_height f) div 2 + by_px cfg)"
    by (simp_all add: F(6,7))
qed

lemma scale_cases:
  "scale cfg padPct mw mh = fdiv (maxContent cfg padPct) (of_nat mw)
   \<or> scale cfg padPct mw mh = fdiv (maxContent cfg padPct) (of_nat mh)"
  by (simp add: scale_def min_def)

lemma scale_le:
  "scale cfg padPct mw mh \<le> fdiv (maxContent cfg padPct) (of_nat mw)"
  "scale cfg padPct mw mh \<le> fdiv (maxContent cfg padPct) (of_nat mh)"
  by (simp_all add: scale_def)

lemma fdiv_mul_le:
  assumes "0 \<le> m" "0 < k"
  shows "0 \<le> fdiv m (of_nat k)" and "of_nat k * fdiv m (of_nat k) \<le> m * (1 + 1 / 2 ^ 53)"
    and "m * (1 - 1 / 2 ^ 53) \<le> of_nat k * fdiv m (of_nat k)"
proof -
  let ?q = "m / of_nat k"
  have k: "(0::rat) < of_nat k" using assms(2) by simp
  have q: "0 \<le> ?q" using assms by simp
  have e: "of_nat k * ?q = m" using k by simp
  show "0 \<le> fdiv m (of_nat k)" unfolding fdiv_def using q by (rule fl_nonneg)
  have "of_nat k * fl ?q \<le> of_nat k * (?q * (1 + 1 / 2 ^ 53))"
    using fl_upper [OF q] k by (intro mult_left_mono) simp_all
  also have "\<dots> = m * (1 + 1 / 2 ^ 53)" using e by (simp only: mult.assoc [symmetric])
  finally show "of_nat k * fdiv m (of_nat k) \<le> m * (1 + 1 / 2 ^ 53)"
    by (simp only: fdiv_def)
  have "m * (1 - 1 / 2 ^ 53) = of_nat k * (?q * (1 - 1 / 2 ^ 53))"
    using e by (simp only: mult.assoc [symmetric])
  also have "\<dots> \<le> of_nat k * fl ?q"
    using fl_lower [OF q] k by (intro mult_left_mono) simp_all
  finally show "m * (1 - 1 / 2 ^ 53) \<le> of_nat k * fdiv m (of_nat k)"
    by (simp only: fdiv_def)
qed

lemma floor_scaled_le:
  assumes "m \<le> of_int S" "0 \<le> S" "S \<le> 2 ^ 50" "0 < k" "s \<le> fdiv m (of_nat k)"
    and "0 \<le> m \<longrightarrow> 0 \<le> s"
  shows "\<lfloor>fl (of_nat k * s)\<rfloor> \<le> S"
proof (cases "0 \<le> m")
  case True
  then have s0: "0 \<le> s" using assms(6) by simp
  have "of_nat k * s \<le> of_nat k * fdiv m (of_nat k)"
    using assms(5) by (intro mult_left_mono) simp_all
  also have "\<dots> \<le> m * (1 + 1 / 2 ^ 53)" using True assms(4) by (rule fdiv_mul_le(2))
  also have "\<dots> \<le> of_int S * (1 + 1 / 2 ^ 53)"
    using assms(1) by (intro mult_right_mono) simp_all
  finally show ?thesis using s0 assms(2,3) by (intro floor_fl_le) simp_all
next
  case False
  then have "m / of_nat k \<le> 0" using assms(4) by (simp add: divide_le_0_iff)
  then have "fdiv m (of_nat k) \<le> 0" unfolding fdiv_def by (rule fl_nonpos)
  then have "s \<le> 0" using assms(5) by simp
  then have "of_nat k * s \<le> 0" by (simp add: mult_le_0_iff)
  then have "fl (of_nat k * s) \<le> 0" by (rule fl_nonpos)
  then have "fl (of_nat k * s) < of_int 0 + 1" by simp
  then have "\<lfloor>fl (of_nat k * s)\<rfloor> \<le> 0" by (simp only: floor_le_iff)
  then show ?thesis using assms(2) by linarith
qed

lemma floor_scaled_ge:
  assumes "1 \<le> m" "m \<le> 2 ^ 50" "0 < k"
  shows "\<lfloor>m\<rfloor> - 1 \<le> \<lfloor>fl (of_nat k * fdiv m (of_nat k))\<rfloor>"
proof -
  have m0: "0 \<le> m" using assms(1) by simp
  have F0: "0 \<le> \<lfloor>m\<rfloor>" using m0 by simp
  have "m \<le> of_int (2 ^ 50)" using assms(2) by simp
  then have "\<lfloor>m\<rfloor> \<le> \<lfloor>of_int (2 ^ 50) :: rat\<rfloor>" by (rule floor_mono)
  then have F1: "\<lfloor>m\<rfloor> \<le> 2 ^ 50" by (simp only: floor_of_int)
  have "of_int \<lfloor>m\<rfloor> * (1 - 1 / 2 ^ 53) \<le> m * (1 - 1 / 2 ^ 53)"
    by (intro mult_right_mono) simp_all
  also have "\<dots> \<le> of_nat k * fdiv m (of_nat k)" using m0 assms(3) by (rule fdiv_mul_le(3))
  finally show ?thesis using F0 F1 by (intro floor_fl_ge)
qed

lemma resized_bounds:
  assumes "1 \<le> maxContent cfg padPct" "maxContent cfg padPct \<le> 2 ^ 50" "0 < mw" "0 < mh"
  shows "nw cfg padPct mw mh \<le> \<lceil>maxContent cfg padPct\<rceil>"
    and "nh cfg padPct mw mh \<le> \<lceil>maxContent cfg padPct\<rceil>"
    and "\<lfloor>maxContent cfg padPct\<rfloor> - 1 \<le> nw cfg padPct mw mh
         \<or> \<lfloor>maxContent cfg padPct\<rfloor> - 1 \<le> nh cfg padPct mw mh"
proof -
  let ?m = "maxContent cfg padPct" and ?s = "scale cfg padPct mw mh"
  let ?sw = "fdiv ?m (of_nat mw)" and ?sh = "fdiv ?m (of_nat mh)"
  have m0: "0 \<le> ?m" using assms(1) by simp
  have C1: "1 \<le> \<lceil>?m\<rceil>" using assms(1) by (simp add: one_le_ceiling)
  have C0: "0 \<le> \<lceil>?m\<rceil>" using C1 by simp
  have "?m \<le> of_int (2 ^ 50)" using assms(2) by simp
  then have C2: "\<lceil>?m\<rceil> \<le> 2 ^ 50" by (simp only: ceiling_le_iff)
  have mc: "?m \<le> of_int \<lceil>?m\<rceil>" by (rule le_of_int_ceiling)
  have sc: "?s = ?sw \<or> ?s = ?sh" by (rule scale_cases)
  have s0: "0 \<le> ?m \<longrightarrow> 0 \<le> ?s"
    using fdiv_mul_le(1) [of ?m mw] fdiv_mul_le(1) [of ?m mh] assms(3,4)
    by (simp add: scale_def)
  have "\<lfloor>fl (of_nat mw * ?s)\<rfloor> \<le> \<lceil>?m\<rceil>"
    using mc C0 C2 assms(3) scale_le(1) [of cfg padPct mw mh] s0 by (rule floor_scaled_le)
  then show "nw cfg padPct mw mh \<le> \<lceil>?m\<rceil>"
    using C1 by (simp add: nw_def Math_floor_def fmul_def)
  have "\<lfloor>fl (of_nat mh * ?s)\<rfloor> \<le> \<lceil>?m\<rceil>"
    using mc C0 C2 assms(4) scale_le(2) [of cfg padPct mw mh] s0 by (rule floor_scaled_le)
  then show "nh cfg padPct mw mh \<le> \<lceil>?m\<rceil>"
    using C1 by (simp add: nh_def Math_floor_def fmul_def)
  from sc show "\<lfloor>?m\<rfloor> - 1 \<le> nw cfg padPct mw mh \<or> \<lfloor>?m\<rfloor> - 1 \<le> nh cfg padPct mw mh"
  proof
    assume e: "?s = ?sw"
    have "\<lfloor>?m\<rfloor> - 1 \<le> \<lfloor>fl (of_nat mw * ?s)\<rfloor>"
      unfolding e using assms(1,2,3) by (rule floor_scaled_ge)
    then have "\<lfloor>?m\<rfloor> - 1 \<le> max 1 \<lfloor>fl (of_nat mw * ?s)\<rfloor>" by (simp add: le_max_iff_disj)
    then show ?thesis by (simp add: nw_def Math_floor_def fmul_def)
  next
    assume e: "?s = ?sh"
    have "\<lfloor>?m\<rfloor> - 1 \<le> \<lfloor>fl (of_nat mh * ?s)\<rfloor>"
      unfolding e using assms(1,2,4) by (rule floor_scaled_ge)
    then have "\<lfloor>?m\<rfloor> - 1 \<le> max 1 \<lfloor>fl (of_nat mh * ?s)\<rfloor>" by (simp add: le_max_iff_disj)
    then show ?thesis by (simp add: nh_def Math_floor_def fmul_def)
  qed
qed

lemma maxContent_le_SIZE:
  assumes "0 \<le> padPct" "0 \<le> SIZE cfg" "SIZE cfg < 2 ^ 53"
  shows "maxContent cfg padPct \<le> of_int (SIZE cfg)"
proof -
  have a: "0 \<le> fl (padPct * 2)" using assms(1) by (intro fl_nonneg) simp
  have "fl (1 - fl (padPct * 2)) \<le> of_int 1"
    using a by (intro fl_le_of_int) simp_all
  then have b: "fl (1 - fl (padPct * 2)) \<le> 1" by simp
  have "of_int (SIZE cfg) * fl (1 - fl (padPct * 2)) \<le> of_int (SIZE cfg) * 1"
    using b assms(2) by (intro mult_left_mono) simp_all
  then have "fl (of_int (SIZE cfg) * fl (1 - fl (padPct * 2))) \<le> of_int (SIZE cfg)"
    using assms(2,3) by (intro fl_le_of_int) simp_all
  then show ?thesis by (simp add: maxContent_def fmul_def fsub_def)
qed

lemma resized_le_SIZE:
  assumes "0 \<le> padPct" "1 \<le> SIZE cfg" "SIZE cfg \<le> 16383" "0 < mw" "0 < mh"
  shows "nw cfg padPct mw mh \<le> SIZE cfg" and "nh cfg padPct mw mh \<le> SIZE cfg"
proof -
  let ?m = "maxContent cfg padPct" and ?s = "scale cfg padPct mw mh"
  have m: "?m \<le> of_int (SIZE cfg)" using assms(1,2,3) by (intro maxContent_le_SIZE) simp_all
  have S: "0 \<le> SIZE cfg" "SIZE cfg \<le> 2 ^ 50" using assms(2,3) by simp_all
  have s0: "0 \<le> ?m \<longrightarrow> 0 \<le> ?s"
    using fdiv_mul_le(1) [of ?m mw] fdiv_mul_le(1) [of ?m mh] assms(4,5)
    by (simp add: scale_def)
  have "\<lfloor>fl (of_nat mw * ?s)\<rfloor> \<le> SIZE cfg"
    using m S assms(4) scale_le(1) [of cfg padPct mw mh] s0 by (rule floor_scaled_le)
  then show "nw cfg padPct mw mh \<le> SIZE cfg"
    using assms(2) by (simp add: nw_def Math_floor_def fmul_def)
  have "\<lfloor>fl (of_nat mh * ?s)\<rfloor> \<le> SIZE cfg"
    using m S assms(5) scale_le(2) [of cfg padPct mw mh] s0 by (rule floor_scaled_le)
  then show "nh cfg padPct mw mh \<le> SIZE cfg"
    using assms(2) by (simp add: nh_def Math_floor_def fmul_def)
qed

section \<open>Values under the default configuration\<close>

text \<open>
  The values that the claims' concrete inputs need, each computed from the definitions by
  rewriting.
\<close>

lemma default_SIZE: "SIZE default_config = 2000"
  by (simp add: default_config_def)

lemma default_pad_nonneg: "0 \<le> PADDING_PCT default_config"
  by (simp add: default_config_def fl_nonneg)

lemma default_by_px: "by_px default_config = 0"
  by code_simp

lemma default_webp_options: "webp_options_of Map.empty = default_webp"
  by code_simp

lemma default_webp_valid: "webp_valid default_webp"
  by (simp add: webp_valid_def in_range_def default_webp_def)

lemma default_maxContent:
  "maxContent default_config (PADDING_PCT default_config) = 1800"
  by code_simp




lemma default_scale_21:
  "scale default_config (PADDING_PCT default_config) 21 21 = fl (1800 / 21)"
  unfolding scale_def default_maxContent of_nat_numeral by code_simp

lemma default_nw_21: "nw default_config (PADDING_PCT default_config) 21 21 = 1799"
  unfolding nw_def default_scale_21 of_nat_numeral by code_simp

lemma default_nh_21: "nh default_config (PADDING_PCT default_config) 21 21 = 1799"
  unfolding nh_def default_scale_21 of_nat_numeral by code_simp

lemma half_pad_maxContent: "maxContent default_config (1 / 2) = 0"
  by code_simp

lemma half_pad_nw: "nw default_config (1 / 2) 21 21 = 1"
  unfolding nw_def scale_def half_pad_maxContent of_nat_numeral by code_simp

lemma default_scale_10_1:
  "scale default_config (PADDING_PCT default_config) 10 1 = 180"
  unfolding scale_def default_maxContent of_nat_numeral of_nat_1 by code_simp

lemma default_nw_10_1: "nw default_config (PADDING_PCT default_config) 10 1 = 1800"
  unfolding nw_def default_scale_10_1 of_nat_numeral by code_simp

lemma default_nh_10_1: "nh default_config (PADDING_PCT default_config) 10 1 = 180"
  unfolding nh_def default_scale_10_1 of_nat_1 by code_simp

lemma size_1024_maxContent:
  "maxContent size_1024 (PADDING_PCT size_1024) = 1024 * fl (9 / 10)"
  by code_simp

lemma size_1024_maxContent_range:
  "1 \<le> maxContent size_1024 (PADDING_PCT size_1024)"
  "maxContent size_1024 (PADDING_PCT size_1024) \<le> 2 ^ 50"
  "\<lfloor>maxContent size_1024 (PADDING_PCT size_1024)\<rfloor> = 921"
  "\<lceil>maxContent size_1024 (PADDING_PCT size_1024)\<rceil> = 922"
  unfolding size_1024_maxContent by code_simp+

lemma size_1024_scale:
  "scale size_1024 (PADDING_PCT size_1024) 1000 600 = fl (1024 * fl (9 / 10) / 1000)"
  unfolding scale_def size_1024_maxContent of_nat_numeral by code_simp

lemma size_1024_nw: "nw size_1024 (PADDING_PCT size_1024) 1000 600 = 921"
  unfolding nw_def size_1024_scale of_nat_numeral by code_simp

lemma size_1024_nh: "nh size_1024 (PADDING_PCT size_1024) 1000 600 = 552"
  unfolding nh_def size_1024_scale of_nat_numeral by code_simp

lemma pad_033_maxContent:
  "maxContent default_config pad_033 = 8215550882742271 / 4398046511104"
  by code_simp

lemma pad_033_below: "maxContent default_config pad_033 < 1868"
  unfolding pad_033_maxContent by simp

lemma pad_033_scale:
  "scale default_config pad_033 3 3 = fl (8215550882742271 / 4398046511104 / 3)"
  unfolding scale_def pad_033_maxContent of_nat_numeral by code_simp

lemma pad_033_nw: "nw default_config pad_033 3 3 = 1868"
  unfolding nw_def pad_033_scale of_nat_numeral by code_simp

lemma size_huge_maxContent: "maxContent size_huge 0 = 9007199254740991"
  by code_simp

lemma size_huge_scale: "scale size_huge 0 3 3 = fl (9007199254740991 / 3)"
  unfolding scale_def size_huge_maxContent of_nat_numeral by code_simp

lemma size_huge_nw: "nw size_huge 0 3 3 = 9007199254740992"
  unfolding nw_def size_huge_scale of_nat_numeral by code_simp



lemma placement_streak:
  "placement default_config (PADDING_PCT default_config) 10 1 (Some (Some (135 / 16), Some 0))
     = Some (- 519, 1000)"
  unfolding placement_def default_scale_10_1 default_by_px default_SIZE by code_simp


text \<open>
  Two calls that the library refuses for their offsets: a centroid far outside the crop,
  and \<^verbatim>\<open>VBIAS=100000\<close> on the geometric branch.
\<close>

lemma placement_far_centroid:
  "placement default_config (PADDING_PCT default_config) 10 1 (Some (Some 1000000000, Some 0))
     = Some (- 179999999000, 1000)"
  unfolding placement_def default_scale_10_1 default_by_px default_SIZE by code_simp

lemma toSquareWebP_far_centroid:
  "toSquareWebP default_config Map.empty streak (PADDING_PCT default_config)
     (Some (Some 1000000000, Some 0)) = Inl OffsetOutOfRange"
proof -
  have d: "width streak = 10" "height streak = 1" by (simp_all add: streak_def)
  show ?thesis
    unfolding toSquareWebP_def Let_def d placement_far_centroid default_nw_10_1 default_nh_10_1
      default_SIZE default_webp_options
    using default_webp_valid by simp
qed

lemma toSquareWebP_large_bias:
  "by_px (default_config\<lparr>V_BIAS_PCT := 100000\<rparr>) = 200000000"
  "placement (default_config\<lparr>V_BIAS_PCT := 100000\<rparr>) (PADDING_PCT default_config) 4 2 None
     = Some (100, 200000550)"
  "toSquareWebP (default_config\<lparr>V_BIAS_PCT := 100000\<rparr>) Map.empty (blank 4 2)
     (PADDING_PCT default_config) None = Inl OffsetOutOfRange"
  by code_simp+

section \<open>No foreground\<close>

lemma scan_all_none:
  assumes "\<forall>x y. \<not> foreground cfg img x y"
  defines "s \<equiv> scan_all (ALPHA_THRESH cfg) (width img) (height img) (extractChannel_alpha_raw img)"
  shows "x1 s = - 1" and "x0 s = int (width img)"
proof -
  let ?t = "ALPHA_THRESH cfg" and ?a = "extractChannel_alpha_raw img"
  let ?ps = "coords (width img) (height img)"
  let ?i = "scan_init (width img) (height img)"
  have s: "s = scan_list ?t (width img) ?a ?ps ?i"
    by (simp add: s_def scan_all_coords)
  have no: "\<And>p. p \<in> set ?ps \<Longrightarrow> \<not> is_fg ?t (width img) ?a p"
    using assms(1) by (metis foreground_iff prod.collapse)
  note X0 = scan_list_x0 [where t = ?t and iw = "width img" and a = ?a and ps = ?ps and s = ?i,
      folded s, unfolded scan_init_simps]
  note X1 = scan_list_x1 [where t = ?t and iw = "width img" and a = ?a and ps = ?ps and s = ?i,
      folded s, unfolded scan_init_simps]
  show "x1 s = - 1" using X1 no by blast
  show "x0 s = int (width img)" using X0 no by blast
qed

lemma no_foreground_null:
  assumes "\<forall>x y. \<not> foreground cfg img x y"
  shows "findAlphaBBoxAndCentroid cfg img = None"
  using scan_all_none [OF assms] by (simp add: findAlphaBBoxAndCentroid_def Let_def)

text \<open>
  Claim C2. When no pixel of the buffer has an alpha above the threshold, the analyzer
  returns null (\<open>None\<close>); \<open>processOne\<close> then passes the whole image on as the
  crop, with no extraction and no centroid, and \<open>toSquareWebP\<close> centres it
  geometrically: the left offset is half of the free width and the top offset half of
  the free height moved by the vertical bias, never negative.
\<close>

theorem no_foreground_fallback:
  assumes "\<forall>x y. \<not> foreground cfg noBg x y"
  shows "findAlphaBBoxAndCentroid cfg noBg = None
         \<and> crop_and_centroid cfg noBg = Inr (noBg, None)
         \<and> (removeBgToRGBA cfg removeBackground run filePath = Inr noBg \<longrightarrow>
              processOne cfg ev removeBackground run filePath
                = toSquareWebP cfg ev noBg (PADDING_PCT cfg) None)
         \<and> (toSquareWebP cfg ev noBg (PADDING_PCT cfg) None = Inr f \<and> \<bar>V_BIAS_PCT cfg\<bar> \<le> 1 \<longrightarrow>
              off_left f = (SIZE cfg - resized_width f) div 2
              \<and> off_top f = max 0 ((SIZE cfg - resized_height f) div 2 + by_px cfg))"
proof -
  have n: "findAlphaBBoxAndCentroid cfg noBg = None" using assms by (rule no_foreground_null)
  have c: "crop_and_centroid cfg noBg = Inr (noBg, None)" by (simp add: crop_and_centroid_def n)
  have p: "processOne cfg ev removeBackground run filePath
             = toSquareWebP cfg ev noBg (PADDING_PCT cfg) None"
    if "removeBgToRGBA cfg removeBackground run filePath = Inr noBg"
    using that by (simp add: processOne_def c)
  show ?thesis using n c p geometric_centering [of cfg ev noBg "PADDING_PCT cfg" f] by blast
qed

theorem no_foreground_fallback_witness:
  "(\<forall>x y. \<not> foreground default_config (blank 4 2) x y)
   \<and> removeBgToRGBA default_config (remover_of (blank 4 2)) const_run ''a.png'' = Inr (blank 4 2)
   \<and> \<bar>V_BIAS_PCT default_config\<bar> \<le> 1
   \<and> findAlphaBBoxAndCentroid default_config (blank 4 2) = None
   \<and> processOne default_config Map.empty (remover_of (blank 4 2)) const_run ''a.png''
       = Inr \<lparr>canvas_width = 2000, canvas_height = 2000, resized_width = 1800, resized_height = 900,
              off_left = 100, off_top = 550,
              encoding = \<lparr>quality = Some 82, alphaQuality = Some 80, lossless = False,
                          smartSubsample = True, effort = Some 6, nearLossless = False\<rparr>\<rparr>"
proof -
  have h: "\<forall>x y. \<not> foreground default_config (blank 4 2) x y"
    by (auto simp: foreground_def blank_def default_config_def extractChannel_alpha_raw_def
        alpha_of_def buf_at_def)
  have r: "removeBgToRGBA default_config (remover_of (blank 4 2)) const_run ''a.png''
             = Inr (blank 4 2)"
    by (simp add: removeBgToRGBA_def remover_of_def ensureAlpha_def default_config_def)
  have b: "\<bar>V_BIAS_PCT default_config\<bar> \<le> 1" by (simp add: default_config_def)
  have v: "toSquareWebP default_config Map.empty (blank 4 2) (PADDING_PCT default_config) None
       = Inr \<lparr>canvas_width = 2000, canvas_height = 2000, resized_width = 1800, resized_height = 900,
              off_left = 100, off_top = 550,
              encoding = \<lparr>quality = Some 82, alphaQuality = Some 80, lossless = False,
                          smartSubsample = True, effort = Some 6, nearLossless = False\<rparr>\<rparr>"
    by code_simp
  show ?thesis
    using no_foreground_fallback [OF h, where removeBackground = "remover_of (blank 4 2)"
        and run = const_run and filePath = "''a.png''" and ev = Map.empty] h r b v
    by simp
qed

section \<open>The resized dimensions\<close>

text \<open>
  Claim C4, as the code has it. For every crop of at least one pixel and every
  configuration whose \<open>maxContent = SIZE \<cdot> (1 - 2 \<cdot> padPct)\<close> lies between 1 and
  \<open>2^50\<close>, the resized width and height are at most \<open>maxContent\<close> rounded up to a
  whole number, and at least one of them is no less than \<open>maxContent\<close> rounded down,
  minus 1. When \<open>maxContent\<close> is a whole number \<open>M\<close>, as the 1800 of the defaults,
  both are at most \<open>M\<close> and one of them is \<open>M\<close> or \<open>M - 1\<close>. Neither the bound
  \<open>maxContent\<close> itself nor equality on an axis holds in general: the double product
  \<open>w \<cdot> (maxContent / w)\<close> can fall just below or just above \<open>maxContent\<close>.
\<close>

theorem resized_within_maxContent:
  assumes "1 \<le> maxContent cfg padPct" "maxContent cfg padPct \<le> 2 ^ 50" "0 < mw" "0 < mh"
  shows "nw cfg padPct mw mh \<le> \<lceil>maxContent cfg padPct\<rceil>
         \<and> nh cfg padPct mw mh \<le> \<lceil>maxContent cfg padPct\<rceil>
         \<and> (\<lfloor>maxContent cfg padPct\<rfloor> - 1 \<le> nw cfg padPct mw mh
              \<or> \<lfloor>maxContent cfg padPct\<rfloor> - 1 \<le> nh cfg padPct mw mh)"
  using resized_bounds [OF assms] by simp

text \<open>
  With \<^verbatim>\<open>SIZE=1024\<close> and the default padding \<open>maxContent\<close> is 921.6, and a crop of
  1000 by 600 pixels is resized to 921 by 552.
\<close>

theorem resized_within_maxContent_witness:
  "1 \<le> maxContent size_1024 (PADDING_PCT size_1024)
   \<and> maxContent size_1024 (PADDING_PCT size_1024) \<le> 2 ^ 50
   \<and> \<lfloor>maxContent size_1024 (PADDING_PCT size_1024)\<rfloor> = 921
   \<and> \<lceil>maxContent size_1024 (PADDING_PCT size_1024)\<rceil> = 922
   \<and> nw size_1024 (PADDING_PCT size_1024) 1000 600 = 921
   \<and> nh size_1024 (PADDING_PCT size_1024) 1000 600 = 552
   \<and> nw size_1024 (PADDING_PCT size_1024) 1000 600 \<le> 922
   \<and> nh size_1024 (PADDING_PCT size_1024) 1000 600 \<le> 922
   \<and> 921 - 1 \<le> nw size_1024 (PADDING_PCT size_1024) 1000 600"
  using resized_within_maxContent [OF size_1024_maxContent_range(1,2), of 1000 600]
    size_1024_maxContent_range
  by (simp add: size_1024_nw size_1024_nh)

text \<open>
  Under the defaults a crop of 21 by 21 pixels is resized to 1799 by 1799, below the
  \<open>maxContent\<close> of 1800 on both axes. With \<^verbatim>\<open>PAD=0.033\<close> \<open>maxContent\<close> is
  1867.9999999999998 and a crop of 3 by 3 pixels is resized to a width of 1868, above it.
  With a padding fraction of one half \<open>maxContent\<close> is 0 and the clamp of line 133
  makes the resized width 1, above it. With \<^verbatim>\<open>SIZE=9007199254740991\<close> and no
  padding, where the doubles are the whole numbers, a crop of 3 by 3 pixels is resized to
  a width of \<open>maxContent + 1\<close>.
\<close>

theorem resized_equality_counterexample:
  "maxContent default_config (PADDING_PCT default_config) = 1800
   \<and> nw default_config (PADDING_PCT default_config) 21 21 = 1799
   \<and> nh default_config (PADDING_PCT default_config) 21 21 = 1799
   \<and> of_int (nw default_config (PADDING_PCT default_config) 21 21)
        \<noteq> maxContent default_config (PADDING_PCT default_config)
   \<and> of_int (nh default_config (PADDING_PCT default_config) 21 21)
        \<noteq> maxContent default_config (PADDING_PCT default_config)
   \<and> maxContent default_config pad_033 < 1868
   \<and> nw default_config pad_033 3 3 = 1868
   \<and> maxContent default_config pad_033 < of_int (nw default_config pad_033 3 3)
   \<and> maxContent default_config (1 / 2) = 0
   \<and> nw default_config (1 / 2) 21 21 = 1
   \<and> maxContent size_huge 0 = 9007199254740991
   \<and> nw size_huge 0 3 3 = 9007199254740992
   \<and> \<lceil>maxContent size_huge 0\<rceil> < nw size_huge 0 3 3"
  using pad_033_below
  by (simp add: default_maxContent default_nw_21 default_nh_21 half_pad_maxContent half_pad_nw
      pad_033_nw size_huge_maxContent size_huge_nw)

section \<open>The scenario of a fully opaque image of 1000 by 600 pixels\<close>














section \<open>The centroid branch of the placement\<close>

lemma streak_crop:
  "crop_and_centroid default_config streak = Inr (streak, Some (Some (135 / 16), Some 0))"
  by code_simp

lemma streak_pipeline:
  "processOne default_config Map.empty (remover_of streak) run filePath
     = Inr \<lparr>canvas_width = 2000, canvas_height = 2000, resized_width = 1800,
            resized_height = 180, off_left = - 519, off_top = 1000, encoding = default_webp\<rparr>"
proof -
  have r: "removeBgToRGBA default_config (remover_of streak) run filePath = Inr streak"
    by (simp add: removeBgToRGBA_def remover_of_def ensureAlpha_def default_config_def)
  have d: "width streak = 10" "height streak = 1" by (simp_all add: streak_def)
  have "toSquareWebP default_config Map.empty streak (PADDING_PCT default_config)
          (Some (Some (135 / 16), Some 0))
        = Inr \<lparr>canvas_width = 2000, canvas_height = 2000, resized_width = 1800,
            resized_height = 180, off_left = - 519, off_top = 1000, encoding = default_webp\<rparr>"
    unfolding toSquareWebP_def Let_def d placement_streak default_nw_10_1 default_nh_10_1
      default_SIZE default_webp_options
    using default_webp_valid by simp
  then show ?thesis by (simp add: processOne_def r streak_crop)
qed

text \<open>
  Claim C7. The fallback branch of the placement clamps both offsets at 0, the centroid
  branch does not: for a row of ten pixels whose mass sits at the right end the crop-local
  centroid is \<open>cx = 8.4375\<close>, \<open>cx \<cdot> scale = 1518.75\<close> exceeds \<open>SIZE / 2 = 1000\<close>, and
  the left offset handed to the composite is \<open>-519\<close>, outside the canvas.
\<close>

theorem centroid_offset_unclamped:
  "(\<exists>l t. placement cfg padPct mw mh None = Some (l, t) \<and> 0 \<le> l \<and> 0 \<le> t)
   \<and> placement default_config (PADDING_PCT default_config) 10 1
        (Some (Some (135 / 16), Some 0)) = Some (- 519, 1000)
   \<and> of_int (SIZE default_config) / 2
        < 135 / 16 * scale default_config (PADDING_PCT default_config) 10 1
   \<and> processOne default_config Map.empty (remover_of streak) run filePath
       = Inr \<lparr>canvas_width = 2000, canvas_height = 2000, resized_width = 1800,
              resized_height = 180, off_left = - 519, off_top = 1000, encoding = default_webp\<rparr>"
proof -
  have "\<exists>l t. placement cfg padPct mw mh None = Some (l, t) \<and> 0 \<le> l \<and> 0 \<le> t"
    by (simp add: placement_def)
  moreover have "of_int (SIZE default_config) / 2
        < 135 / 16 * scale default_config (PADDING_PCT default_config) 10 1"
    unfolding default_scale_10_1 default_SIZE by simp
  ultimately show ?thesis using placement_streak streak_pipeline by blast
qed

section \<open>smoothAlpha and the shared sharp object\<close>

text \<open>
  \<open>rgb\<close> and \<open>alpha\<close> of \<open>smoothAlpha\<close> are the object \<open>img\<close> itself, so the two
  \<open>toBuffer\<close> calls of lines 87 and 92 run the pipeline on the same options and return
  the same buffer: the colour channels and the alpha channel of the result are read from
  one buffer.
\<close>

lemma smoothAlpha_unfold:
  "smoothAlpha run cfg rgbaBuf =
     (case run (smooth_options cfg) rgbaBuf of
        Inl e \<Rightarrow> Inl e
      | Inr buf \<Rightarrow>
          (case raw_grey (width rgbaBuf) (height rgbaBuf) buf of
             Inl e \<Rightarrow> Inl e
           | Inr alphaPng \<Rightarrow>
               (case raw_rgb (width rgbaBuf) (height rgbaBuf) buf of
                  Inl e \<Rightarrow> Inl e
                | Inr rgbPng \<Rightarrow>
                    joinChannel (width rgbaBuf) (height rgbaBuf) rgbPng alphaPng)))"
  by (simp add: smoothAlpha_def sharp_def removeAlpha_def extractChannel_def blur_def
      threshold_def raw_def set_option_def toBuffer_def smooth_options_def Let_def
      split: sum.splits)

lemma three_bytes: "3 \<le> length buf \<Longrightarrow> \<exists>b0 b1 b2 rest. buf = b0 # b1 # b2 # rest"
  by (auto simp: numeral_3_eq_3 Suc_le_length_iff)

lemma smoothAlpha_one_pixel:
  assumes "smoothAlpha run cfg one_pixel = Inr out"
  shows "\<exists>b0 b1 b2. pixels out = [(b0, b1, b2, b0)]"
proof -
  have d: "width one_pixel = 1" "height one_pixel = 1" by (simp_all add: one_pixel_def)
  from assms obtain buf where b: "run (smooth_options cfg) one_pixel = Inr buf"
    by (auto simp: smoothAlpha_unfold split: sum.splits)
  have eq: "(case raw_grey 1 1 buf of
               Inl e \<Rightarrow> Inl e
             | Inr alphaPng \<Rightarrow>
                 (case raw_rgb 1 1 buf of
                    Inl e \<Rightarrow> Inl e
                  | Inr rgbPng \<Rightarrow> joinChannel 1 1 rgbPng alphaPng)) = Inr out"
    using assms unfolding smoothAlpha_unfold b d by simp
  have len: "3 \<le> length buf"
    using eq by (auto simp: raw_grey_def raw_rgb_def split: if_splits)
  then obtain b0 b1 b2 rest where buf: "buf = b0 # b1 # b2 # rest"
    using three_bytes by blast
  have g: "raw_grey 1 1 buf = Inr [b0]" by (simp add: raw_grey_def buf)
  have c: "raw_rgb 1 1 buf = Inr [(b0, b1, b2)]" by (simp add: raw_rgb_def buf)
  have "out = \<lparr>width = 1, height = 1, pixels = [(b0, b1, b2, b0)]\<rparr>"
    using eq unfolding g c by (simp add: joinChannel_def)
  then show ?thesis by simp
qed

text \<open>
  Claim C8 fails on the code. For the image of one pixel \<open>(7, 0, 0, 255)\<close> the claim's
  result keeps the colour \<open>(7, 0, 0)\<close> and has a binary alpha, 255 or 0; whatever the
  native pipeline computes, \<open>smoothAlpha\<close> returns neither, because the alpha byte of
  its result is the red byte of its result.
\<close>

theorem smoothAlpha_not_frame:
  "smoothAlpha run cfg one_pixel \<noteq> Inr \<lparr>width = 1, height = 1, pixels = [(7, 0, 0, 255)]\<rparr>
   \<and> smoothAlpha run cfg one_pixel \<noteq> Inr \<lparr>width = 1, height = 1, pixels = [(7, 0, 0, 0)]\<rparr>"
  using smoothAlpha_one_pixel [of run cfg] by fastforce

section \<open>The tier fallback of removeBgToRGBA\<close>

text \<open>
  The \<^verbatim>\<open>try\<close> and \<^verbatim>\<open>catch\<close> of lines 104 to 113 do fall back: when the
  high-quality call throws, the default call replaces it, the error is dropped, and the
  result of the default call is normalised to RGBA. But with \<^verbatim>\<open>HQ\<close> set the
  normalised image always goes through \<open>smoothAlpha\<close>.
\<close>

lemma hq_fallback_unfold:
  assumes "HQ cfg"
    and "removeBackground filePath (RbOptions ''png'' False ''medium'') = Inl e"
  shows "removeBgToRGBA cfg removeBackground run filePath =
           (case removeBackground filePath RbDefault of
              Inl e' \<Rightarrow> Inl e'
            | Inr bl \<Rightarrow> smoothAlpha run cfg (ensureAlpha bl))"
  using assms by (simp add: removeBgToRGBA_def Let_def split: sum.splits)

lemma smoothAlpha_refusing: "smoothAlpha (refusing run) cfg rgbaBuf = Inl PipelineFailed"
  by (simp add: smoothAlpha_unfold refusing_def smooth_options_def)

lemma hq_refusing:
  assumes "HQ cfg"
  shows "removeBgToRGBA cfg removeBackground (refusing run) filePath \<noteq> Inr out"
  using assms by (auto simp: removeBgToRGBA_def Let_def smoothAlpha_refusing split: sum.splits)

lemma failing_hq_falls_back:
  "removeBgToRGBA hq_config failing_hq run filePath = smoothAlpha run hq_config one_pixel"
proof -
  have h: "HQ hq_config" by (simp add: hq_config_def default_config_def)
  have t: "failing_hq filePath (RbOptions ''png'' False ''medium'') = Inl RemovalFailed"
    by (simp add: failing_hq_def)
  show ?thesis
    unfolding hq_fallback_unfold [of hq_config failing_hq filePath RemovalFailed run, OF h t]
    by (simp add: failing_hq_def ensureAlpha_def one_pixel_def)
qed

text \<open>
  Claim C9 fails on the code, by the defect of claim C8. The high-quality tier of
  \<open>failing_hq\<close> throws and its default tier returns one pixel \<open>(7, 0, 0)\<close>, whose
  normalised RGBA form is \<open>(7, 0, 0, 255)\<close>. The fallback is taken, and its result is
  handed to \<open>smoothAlpha\<close>: whatever the native pipeline computes,
  \<open>removeBgToRGBA\<close> returns neither that image nor the one with the alpha cleared;
  and with a pipeline that throws on the options of the shared object, as the library
  does, it returns no image at all, for this and for every other background remover.
\<close>

theorem hq_fallback_no_output:
  "failing_hq filePath (RbOptions ''png'' False ''medium'') = Inl RemovalFailed
   \<and> failing_hq filePath RbDefault = Inr (OpaqueImage 1 1 [(7, 0, 0)])
   \<and> ensureAlpha (OpaqueImage 1 1 [(7, 0, 0)]) = one_pixel
   \<and> removeBgToRGBA hq_config failing_hq run filePath = smoothAlpha run hq_config one_pixel
   \<and> removeBgToRGBA hq_config failing_hq run filePath \<noteq> Inr one_pixel
   \<and> removeBgToRGBA hq_config failing_hq run filePath
       \<noteq> Inr \<lparr>width = 1, height = 1, pixels = [(7, 0, 0, 0)]\<rparr>
   \<and> removeBgToRGBA hq_config failing_hq (refusing run) filePath = Inl PipelineFailed
   \<and> removeBgToRGBA (cfg\<lparr>HQ := True\<rparr>) removeBackground (refusing run) filePath \<noteq> Inr out"
proof -
  have a: "failing_hq filePath (RbOptions ''png'' False ''medium'') = Inl RemovalFailed"
    and b: "failing_hq filePath RbDefault = Inr (OpaqueImage 1 1 [(7, 0, 0)])"
    by (simp_all add: failing_hq_def)
  have c: "ensureAlpha (OpaqueImage 1 1 [(7, 0, 0)]) = one_pixel"
    by (simp add: ensureAlpha_def one_pixel_def)
  note d = failing_hq_falls_back [of run filePath]
  have e: "smoothAlpha run hq_config one_pixel \<noteq> Inr one_pixel"
    using smoothAlpha_one_pixel [of run hq_config one_pixel] by (auto simp: one_pixel_def)
  have f: "smoothAlpha run hq_config one_pixel
             \<noteq> Inr \<lparr>width = 1, height = 1, pixels = [(7, 0, 0, 0)]\<rparr>"
    using smoothAlpha_one_pixel [of run hq_config] by fastforce
  have g: "removeBgToRGBA hq_config failing_hq (refusing run) filePath = Inl PipelineFailed"
    unfolding failing_hq_falls_back by (rule smoothAlpha_refusing)
  have h: "removeBgToRGBA (cfg\<lparr>HQ := True\<rparr>) removeBackground (refusing run) filePath \<noteq> Inr out"
    by (rule hq_refusing) simp
  show ?thesis using a b c d e f g h by simp
qed

section \<open>The encoder's options\<close>

text \<open>
  Claim C10. Every canvas that \<open>toSquareWebP\<close> encodes is encoded with lossless and
  near-lossless off and smart chroma subsampling on; the quality, the alpha quality and
  the effort are read each from its own environment variable and default to 82, 80 and 6.
\<close>

theorem encoder_policy:
  assumes "toSquareWebP cfg ev crop padPct centroid = Inr f"
  shows "lossless (encoding f) = False \<and> nearLossless (encoding f) = False
         \<and> smartSubsample (encoding f) = True
         \<and> quality (encoding f) = parseInt (env_or ev ''QUALITY'' ''82'')
         \<and> alphaQuality (encoding f) = parseInt (env_or ev ''AQUALITY'' ''80'')
         \<and> effort (encoding f) = parseInt (env_or ev ''EFFORT'' ''6'')
         \<and> (ev ''QUALITY'' = None \<longrightarrow> quality (encoding f) = Some 82)
         \<and> (ev ''AQUALITY'' = None \<longrightarrow> alphaQuality (encoding f) = Some 80)
         \<and> (ev ''EFFORT'' = None \<longrightarrow> effort (encoding f) = Some 6)"
proof -
  have enc: "encoding f = webp_options_of ev"
    using assms by (auto simp: toSquareWebP_def Let_def split: if_splits option.splits prod.splits)
  have d1: "parseInt ''82'' = Some 82" by code_simp
  have d2: "parseInt ''80'' = Some 80" by code_simp
  have d3: "parseInt ''6'' = Some 6" by code_simp
  show ?thesis
    by (simp add: enc webp_options_of_def env_or_def d1 d2 d3)
qed

theorem encoder_policy_witness:
  "toSquareWebP default_config quality_90 (blank 4 2) (PADDING_PCT default_config) None
     = Inr \<lparr>canvas_width = 2000, canvas_height = 2000, resized_width = 1800, resized_height = 900,
            off_left = 100, off_top = 550,
            encoding = \<lparr>quality = Some 90, alphaQuality = Some 80, lossless = False,
                        smartSubsample = True, effort = Some 6, nearLossless = False\<rparr>\<rparr>
   \<and> quality_90 ''AQUALITY'' = None \<and> quality_90 ''EFFORT'' = None"
proof -
  have h: "toSquareWebP default_config quality_90 (blank 4 2) (PADDING_PCT default_config) None
     = Inr \<lparr>canvas_width = 2000, canvas_height = 2000, resized_width = 1800, resized_height = 900,
            off_left = 100, off_top = 550,
            encoding = \<lparr>quality = Some 90, alphaQuality = Some 80, lossless = False,
                        smartSubsample = True, effort = Some 6, nearLossless = False\<rparr>\<rparr>"
    by code_simp
  show ?thesis using encoder_policy [OF h] h by (simp add: quality_90_def)
qed

end
